theory Spec2Isabelle
  imports Main "HOL-Library.Word" "HOL-Library.Signed_Division" "HOL-Library.Monad_Syntax"
begin

unbundle bit_operations_syntax

section \<open>C integers\<close>

text \<open>
  A pixel is a \<open>uint32_t\<close>: a 32-bit word whose arithmetic wraps around. The C type
  \<open>int\<close> (and \<open>int32_t\<close>) is modelled by the mathematical integers together with
  the range check the C standard imposes: signed arithmetic whose result leaves
  \<open>[INT_MIN, INT_MAX]\<close> is undefined behaviour. A computation with undefined behaviour
  (signed overflow, division by zero, an access outside a buffer) has the value
  \<open>None\<close>.
\<close>

type_synonym uint32_t = "32 word"

definition INT_MAX :: int where
  "INT_MAX = 2147483647"

definition INT_MIN :: int where
  "INT_MIN = - 2147483648"

definition c_int :: "int \<Rightarrow> int option" where
  "c_int v = (if INT_MIN \<le> v \<and> v \<le> INT_MAX then Some v else None)"

definition c_add :: "int \<Rightarrow> int \<Rightarrow> int option" where
  "c_add x y = c_int (x + y)"

definition c_mul :: "int \<Rightarrow> int \<Rightarrow> int option" where
  "c_mul x y = c_int (x * y)"

definition c_neg :: "int \<Rightarrow> int option" where
  "c_neg x = c_int (- x)"

text \<open>C division truncates towards zero (\<open>sdiv\<close>, \<open>smod\<close>).\<close>

definition c_div :: "int \<Rightarrow> int \<Rightarrow> int option" where
  "c_div x y = (if y = 0 then None else c_int (x sdiv y))"

definition c_mod :: "int \<Rightarrow> int \<Rightarrow> int option" where
  "c_mod x y = (if y = 0 \<or> (x = INT_MIN \<and> y = - 1) then None else Some (x smod y))"

text \<open>
  \<open>x += v\<close> for an \<open>int x\<close> and a \<open>uint32_t v\<close>: by the usual arithmetic conversions the
  sum is computed in \<open>uint32_t\<close> (it wraps around, it is not undefined), and the result
  is converted back to \<open>int\<close> by two's complement.
\<close>

definition add_assign_u :: "int \<Rightarrow> uint32_t \<Rightarrow> int" where
  "add_assign_u x v = sint (word_of_int x + v)"

section \<open>Buffers and loops\<close>

definition load :: "uint32_t list \<Rightarrow> int \<Rightarrow> uint32_t option" where
  "load buf idx = (if 0 \<le> idx \<and> idx < int (length buf) then Some (buf ! nat idx) else None)"

definition store :: "uint32_t list \<Rightarrow> int \<Rightarrow> uint32_t \<Rightarrow> uint32_t list option" where
  "store buf idx v =
     (if 0 \<le> idx \<and> idx < int (length buf) then Some (buf[nat idx := v]) else None)"

text \<open>\<open>for (int i = lo; i < n; i++) s = body i s\<close>\<close>

function for_lt :: "int \<Rightarrow> int \<Rightarrow> (int \<Rightarrow> 's \<Rightarrow> 's option) \<Rightarrow> 's \<Rightarrow> 's option" where
  "for_lt i n body s =
     (if i < n then do { s' \<leftarrow> body i s; i' \<leftarrow> c_add i 1; for_lt i' n body s' }
      else Some s)"
  by pat_completeness auto
termination
  by (relation "measure (\<lambda>(i, n, body, s). nat (n - i))")
     (auto simp add: c_add_def c_int_def split: if_splits)

text \<open>\<open>for (int i = lo; i <= n; i++) s = body i s\<close>\<close>

function for_le :: "int \<Rightarrow> int \<Rightarrow> (int \<Rightarrow> 's \<Rightarrow> 's option) \<Rightarrow> 's \<Rightarrow> 's option" where
  "for_le i n body s =
     (if i \<le> n then do { s' \<leftarrow> body i s; i' \<leftarrow> c_add i 1; for_le i' n body s' }
      else Some s)"
  by pat_completeness auto
termination
  by (relation "measure (\<lambda>(i, n, body, s). nat (n + 1 - i))")
     (auto simp add: c_add_def c_int_def split: if_splits)

declare for_lt.simps [simp del] for_le.simps [simp del]

section \<open>Images\<close>

text \<open>
  Modelled from the spec: the declaration of \<open>struct Image\<close> (in \<open>imgproc.h\<close>) is
  missing. Width and height are C ints, the data is a row-major buffer of pixels.
\<close>

record Image =
  width :: int
  height :: int
  data :: "uint32_t list"

text \<open>
  The invariant of an image: the buffer holds \<open>width * height\<close> pixels, and the
  dimensions and the pixel count are values of the C type \<open>int\<close>, by which the code
  indexes the buffer.
\<close>

definition wf_image :: "Image \<Rightarrow> bool" where
  "wf_image img \<longleftrightarrow>
     0 \<le> width img \<and> width img \<le> INT_MAX \<and> 0 \<le> height img \<and> height img \<le> INT_MAX \<and>
     width img * height img \<le> INT_MAX \<and>
     length (data img) = nat (width img * height img)"

text \<open>The pixel at a row and column that are in bounds, for stating properties.\<close>

definition px :: "Image \<Rightarrow> int \<Rightarrow> int \<Rightarrow> uint32_t" where
  "px img row col = data img ! nat (row * width img + col)"

definition rowIndex :: "int \<Rightarrow> int \<Rightarrow> int option" where
  "rowIndex index w = c_div index w"

definition columnIndex :: "int \<Rightarrow> int \<Rightarrow> int option" where
  "columnIndex index w = c_mod index w"

definition getPixel :: "Image \<Rightarrow> int \<Rightarrow> int \<Rightarrow> uint32_t option" where
  "getPixel input_img row col =
     do { t \<leftarrow> c_mul row (width input_img);
          idx \<leftarrow> c_add t col;
          load (data input_img) idx }"

section \<open>Pixel codec\<close>

definition getAlpha :: "uint32_t \<Rightarrow> uint32_t" where
  "getAlpha pixel = pixel AND 0xFF"

definition getBlue :: "uint32_t \<Rightarrow> uint32_t" where
  "getBlue pixel = drop_bit 8 pixel AND 0xFF"

definition getGreen :: "uint32_t \<Rightarrow> uint32_t" where
  "getGreen pixel = drop_bit 16 pixel AND 0xFF"

definition getRed :: "uint32_t \<Rightarrow> uint32_t" where
  "getRed pixel = drop_bit 24 pixel AND 0xFF"

definition createPixel :: "uint32_t \<Rightarrow> uint32_t \<Rightarrow> uint32_t \<Rightarrow> uint32_t \<Rightarrow> uint32_t" where
  "createPixel red green blue alpha =
     push_bit 24 red OR push_bit 16 green OR push_bit 8 blue OR alpha"

definition createAveragePixel :: "uint32_t \<Rightarrow> uint32_t \<Rightarrow> uint32_t" where
  "createAveragePixel pixel_one pixel_two =
     (let avg_red = (getRed pixel_one + getRed pixel_two) div 2;
          avg_green = (getGreen pixel_one + getGreen pixel_two) div 2;
          avg_blue = (getBlue pixel_one + getBlue pixel_two) div 2;
          avg_alpha = (getAlpha pixel_one + getAlpha pixel_two) div 2
      in createPixel avg_red avg_green avg_blue avg_alpha)"

definition quadAveragePixel ::
  "uint32_t \<Rightarrow> uint32_t \<Rightarrow> uint32_t \<Rightarrow> uint32_t \<Rightarrow> uint32_t" where
  "quadAveragePixel pixel_one pixel_two pixel_three pixel_four =
     (let avg_red = (getRed pixel_one + getRed pixel_two + getRed pixel_three
                      + getRed pixel_four) div 4;
          avg_green = (getGreen pixel_one + getGreen pixel_two + getGreen pixel_three
                      + getGreen pixel_four) div 4;
          avg_blue = (getBlue pixel_one + getBlue pixel_two + getBlue pixel_three
                      + getBlue pixel_four) div 4;
          avg_alpha = (getAlpha pixel_one + getAlpha pixel_two + getAlpha pixel_three
                      + getAlpha pixel_four) div 4
      in createPixel avg_red avg_green avg_blue avg_alpha)"

section \<open>The pixel averager\<close>

text \<open>
  Modelled from the spec: the declaration of \<open>struct PixelAverager\<close> (in
  \<open>imgproc.h\<close>) is missing. The spec gives four channel sums and a count, all
  non-negative integers; they are taken as \<open>uint32_t\<close>, the type of the channel values
  added to them and of the pixel built from them.
\<close>

record PixelAverager =
  r :: uint32_t
  g :: uint32_t
  b :: uint32_t
  a :: uint32_t
  count :: uint32_t

definition pa_init :: PixelAverager where
  "pa_init = \<lparr>r = 0, g = 0, b = 0, a = 0, count = 0\<rparr>"

definition pa_update :: "PixelAverager \<Rightarrow> uint32_t \<Rightarrow> PixelAverager" where
  "pa_update pa pixel =
     pa\<lparr>r := r pa + getRed pixel,
        g := g pa + getGreen pixel,
        b := b pa + getBlue pixel,
        a := a pa + getAlpha pixel,
        count := count pa + 1\<rparr>"

definition pa_update_from_img ::
  "Image \<Rightarrow> int \<Rightarrow> int \<Rightarrow> PixelAverager \<Rightarrow> PixelAverager option" where
  "pa_update_from_img img row col pa =
     (if row < 0 \<or> row \<ge> height img \<or> col < 0 \<or> col \<ge> width img then Some pa
      else do { t \<leftarrow> c_mul row (width img);
                idx \<leftarrow> c_add t col;
                pixel \<leftarrow> load (data img) idx;
                Some (pa_update pa pixel) })"

text \<open>Unsigned division by a zero count is undefined behaviour.\<close>

definition pa_avg_pixel :: "PixelAverager \<Rightarrow> uint32_t option" where
  "pa_avg_pixel pa =
     (if count pa = 0 then None
      else Some (createPixel (r pa div count pa) (g pa div count pa)
                             (b pa div count pa) (a pa div count pa)))"

section \<open>The transformations\<close>

text \<open>
  Each transformation reads the input image and writes the buffer of the output image,
  which the caller allocates; the two buffers are distinct. The result is the output
  image after the call, or \<open>None\<close> when the call has undefined behaviour.
\<close>

definition imgproc_squash :: "Image \<Rightarrow> Image \<Rightarrow> int \<Rightarrow> int \<Rightarrow> Image option" where
  "imgproc_squash input_img output_img xfac yfac =
     (let out_w = width output_img; out_h = height output_img in
      do { out \<leftarrow>
             for_lt 0 out_h (\<lambda>i. for_lt 0 out_w (\<lambda>j out.
               do { src_row \<leftarrow> c_mul i yfac;
                    src_col \<leftarrow> c_mul j xfac;
                    t \<leftarrow> c_mul src_row (width input_img);
                    src_idx \<leftarrow> c_add t src_col;
                    pixel \<leftarrow> load (data input_img) src_idx;
                    u \<leftarrow> c_mul i out_w;
                    dst_idx \<leftarrow> c_add u j;
                    store out dst_idx pixel }))
               (data output_img);
           Some (output_img\<lparr>data := out\<rparr>) })"

definition imgproc_color_rot :: "Image \<Rightarrow> Image \<Rightarrow> Image option" where
  "imgproc_color_rot input_img output_img =
     do { n \<leftarrow> c_mul (width input_img) (height input_img);
          out \<leftarrow>
            for_lt 0 n (\<lambda>i out.
              do { my_pixel \<leftarrow> load (data input_img) i;
                   store out i (createPixel (getBlue my_pixel) (getRed my_pixel)
                                            (getGreen my_pixel) (getAlpha my_pixel)) })
              (data output_img);
          Some (output_img\<lparr>data := out\<rparr>) }"

text \<open>
  The two inner loops of \<open>imgproc_blur\<close> for the output pixel at row \<open>i\<close>, column
  \<open>j\<close>: they return the accumulators \<open>(red, green, blue, total)\<close>.
\<close>

definition blur_accumulate ::
  "Image \<Rightarrow> int \<Rightarrow> int \<Rightarrow> int \<Rightarrow> (int \<times> int \<times> int \<times> int) option" where
  "blur_accumulate input_img blur_dist i j =
     (let rows = height input_img; cols = width input_img in
      do { k0 \<leftarrow> c_neg blur_dist;
           for_le k0 blur_dist (\<lambda>k acc.
             do { l0 \<leftarrow> c_neg blur_dist;
                  for_le l0 blur_dist (\<lambda>l (red, green, blue, total).
                    do { currX \<leftarrow> c_add i k;
                         currY \<leftarrow> c_add j l;
                         if currX \<ge> 0 \<and> currX < rows \<and> currY \<ge> 0 \<and> currY < cols
                         then do { t \<leftarrow> c_mul currX cols;
                                   idx \<leftarrow> c_add t currY;
                                   pixel \<leftarrow> load (data input_img) idx;
                                   total' \<leftarrow> c_add total 1;
                                   Some (add_assign_u red (drop_bit 24 pixel AND 0xFF),
                                         add_assign_u green (drop_bit 16 pixel AND 0xFF),
                                         add_assign_u blue (drop_bit 8 pixel AND 0xFF),
                                         total') }
                         else Some (red, green, blue, total) })
                    acc })
             (0, 0, 0, 0) })"

definition imgproc_blur :: "Image \<Rightarrow> Image \<Rightarrow> int \<Rightarrow> Image option" where
  "imgproc_blur input_img output_img blur_dist =
     (let rows = height input_img; cols = width input_img in
      do { out \<leftarrow>
             for_lt 0 rows (\<lambda>i. for_lt 0 cols (\<lambda>j out.
               do { (red, green, blue, total) \<leftarrow> blur_accumulate input_img blur_dist i j;
                    t \<leftarrow> c_mul i cols;
                    pos \<leftarrow> c_add t j;
                    pixel \<leftarrow> load (data input_img) pos;
                    let alpha = pixel AND 0xFF;
                    rd \<leftarrow> c_div red total;
                    gn \<leftarrow> c_div green total;
                    bl \<leftarrow> c_div blue total;
                    store out pos (push_bit 24 (word_of_int rd) OR push_bit 16 (word_of_int gn)
                                   OR push_bit 8 (word_of_int bl) OR alpha) }))
               (data output_img);
           Some (output_img\<lparr>data := out\<rparr>) })"

text \<open>
  The body of the loop of \<open>imgproc_expand\<close> for the output index \<open>i\<close>. The divisions
  and remainders by the constant 2 and the additions \<open>row/2 + 1\<close>, \<open>col/2 + 1\<close> cannot
  overflow.
\<close>

definition expand_pixel :: "Image \<Rightarrow> Image \<Rightarrow> int \<Rightarrow> uint32_t list \<Rightarrow> uint32_t list option" where
  "expand_pixel input_img output_img i out =
     do { row \<leftarrow> rowIndex i (width output_img);
          col \<leftarrow> columnIndex i (width output_img);
          let right_edge = (col sdiv 2 + 1 \<ge> width input_img);
          let bottom_edge = (row sdiv 2 + 1 \<ge> height input_img);
          pixel_original \<leftarrow> getPixel input_img (row sdiv 2) (col sdiv 2);
          if row smod 2 = 0 \<and> col smod 2 = 0 then store out i pixel_original
          else if col smod 2 \<noteq> 0 \<and> row smod 2 = 0 then
            (if right_edge then store out i pixel_original
             else do { pixel_right \<leftarrow> getPixel input_img (row sdiv 2) (col sdiv 2 + 1);
                       store out i (createAveragePixel pixel_original pixel_right) })
          else if row smod 2 \<noteq> 0 \<and> col smod 2 = 0 then
            (if bottom_edge then store out i pixel_original
             else do { pixel_below \<leftarrow> getPixel input_img (row sdiv 2 + 1) (col sdiv 2);
                       store out i (createAveragePixel pixel_original pixel_below) })
          else if \<not> right_edge \<and> \<not> bottom_edge then
            do { pixel_right \<leftarrow> getPixel input_img (row sdiv 2) (col sdiv 2 + 1);
                 pixel_below \<leftarrow> getPixel input_img (row sdiv 2 + 1) (col sdiv 2);
                 pixel_diagonal \<leftarrow> getPixel input_img (row sdiv 2 + 1) (col sdiv 2 + 1);
                 store out i (quadAveragePixel pixel_original pixel_right pixel_below
                                               pixel_diagonal) }
          else if \<not> right_edge then
            do { pixel_right \<leftarrow> getPixel input_img (row sdiv 2) (col sdiv 2 + 1);
                 store out i (createAveragePixel pixel_original pixel_right) }
          else if \<not> bottom_edge then
            do { pixel_below \<leftarrow> getPixel input_img (row sdiv 2 + 1) (col sdiv 2);
                 store out i (createAveragePixel pixel_original pixel_below) }
          else store out i pixel_original }"

definition imgproc_expand :: "Image \<Rightarrow> Image \<Rightarrow> Image option" where
  "imgproc_expand input_img output_img =
     do { n \<leftarrow> c_mul (width output_img) (height output_img);
          out \<leftarrow> for_lt 0 n (expand_pixel input_img output_img) (data output_img);
          Some (output_img\<lparr>data := out\<rparr>) }"

section \<open>Specification of the blur\<close>

text \<open>
  The window of the output pixel at (row, col): the coordinates of the square
  \<open>[row - blur_dist, row + blur_dist] \<times> [col - blur_dist, col + blur_dist]\<close> that lie
  within the image. The first component is the row, the second the column.
\<close>

definition blur_window :: "Image \<Rightarrow> int \<Rightarrow> int \<Rightarrow> int \<Rightarrow> (int \<times> int) set" where
  "blur_window img blur_dist row col =
     ({row - blur_dist..row + blur_dist} \<times> {col - blur_dist..col + blur_dist})
       \<inter> ({0..<height img} \<times> {0..<width img})"

text \<open>The sum of one channel over the pixels at a set of coordinates.\<close>

definition channel_sum :: "(uint32_t \<Rightarrow> uint32_t) \<Rightarrow> Image \<Rightarrow> (int \<times> int) set \<Rightarrow> int" where
  "channel_sum channel img S = (\<Sum>(x, y)\<in>S. uint (channel (px img x y)))"

text \<open>
  For the loop invariants of the blur: the window coordinates that the two inner loops
  have visited when they are at the offsets \<open>k\<close> and \<open>l\<close>, the accumulators after
  visiting a set of coordinates (the three sums wrap around as the C accumulators do),
  and the pixel stored from the accumulators of the full window.
\<close>

definition blur_seen :: "Image \<Rightarrow> int \<Rightarrow> int \<Rightarrow> int \<Rightarrow> int \<Rightarrow> int \<Rightarrow> (int \<times> int) set" where
  "blur_seen img blur_dist i j k l =
     {(x, y). (x, y) \<in> blur_window img blur_dist i j \<and> (x < i + k \<or> (x = i + k \<and> y < j + l))}"

definition blur_sums :: "Image \<Rightarrow> (int \<times> int) set \<Rightarrow> int \<times> int \<times> int \<times> int" where
  "blur_sums img S =
     (sint (word_of_int (channel_sum getRed img S) :: uint32_t),
      sint (word_of_int (channel_sum getGreen img S) :: uint32_t),
      sint (word_of_int (channel_sum getBlue img S) :: uint32_t),
      int (card S))"

definition blur_result :: "Image \<Rightarrow> int \<Rightarrow> int \<Rightarrow> int \<Rightarrow> uint32_t" where
  "blur_result img blur_dist i j =
     (case blur_sums img (blur_window img blur_dist i j) of
        (red, green, blue, n) \<Rightarrow>
          createPixel (word_of_int (red sdiv n)) (word_of_int (green sdiv n))
                      (word_of_int (blue sdiv n)) (getAlpha (px img i j)))"

section \<open>Specification of the expansion\<close>

text \<open>
  The output pixel at (row, col) as the spec words it: with \<open>r = row/2\<close>,
  \<open>c = col/2\<close>, \<open>right_edge = (c + 1 \<ge> width)\<close> and
  \<open>bottom_edge = (r + 1 \<ge> height)\<close>, a dispatch on the parities of the row and the
  column and on the two edge flags. It is compared below with \<open>imgproc_expand\<close>.
\<close>

definition expand_spec :: "Image \<Rightarrow> int \<Rightarrow> int \<Rightarrow> uint32_t" where
  "expand_spec source row col =
     (let r = row div 2; c = col div 2;
          right_edge = (c + 1 \<ge> width source);
          bottom_edge = (r + 1 \<ge> height source)
      in if even row \<and> even col then px source r c
         else if even row \<and> odd col then
           (if right_edge then px source r c
            else createAveragePixel (px source r c) (px source r (c + 1)))
         else if odd row \<and> even col then
           (if bottom_edge then px source r c
            else createAveragePixel (px source r c) (px source (r + 1) c))
         else
           (if \<not> right_edge \<and> \<not> bottom_edge then
              quadAveragePixel (px source r c) (px source r (c + 1))
                               (px source (r + 1) c) (px source (r + 1) (c + 1))
            else if right_edge \<and> \<not> bottom_edge then
              createAveragePixel (px source r c) (px source (r + 1) c)
            else if bottom_edge \<and> \<not> right_edge then
              createAveragePixel (px source r c) (px source r (c + 1))
            else px source r c))"

section \<open>Properties of the pixel codec\<close>

lemma mask8: "(0xFF :: uint32_t) = mask 8"
  by (simp add: mask_eq_exp_minus_1)

lemma bit_getAlpha: "bit (getAlpha p) n \<longleftrightarrow> n < 8 \<and> bit p n"
  by (auto simp add: getAlpha_def mask8 bit_simps)

lemma bit_getBlue: "bit (getBlue p) n \<longleftrightarrow> n < 8 \<and> bit p (n + 8)"
  by (auto simp add: getBlue_def mask8 bit_simps ac_simps)

lemma bit_getGreen: "bit (getGreen p) n \<longleftrightarrow> n < 8 \<and> bit p (n + 16)"
  by (auto simp add: getGreen_def mask8 bit_simps ac_simps)

lemma bit_getRed: "bit (getRed p) n \<longleftrightarrow> n < 8 \<and> bit p (n + 24)"
  by (auto simp add: getRed_def mask8 bit_simps ac_simps)

lemma bit_createPixel:
  "bit (createPixel x y z w) n \<longleftrightarrow>
     n < 32 \<and> (24 \<le> n \<and> bit x (n - 24) \<or> 16 \<le> n \<and> bit y (n - 16)
               \<or> 8 \<le> n \<and> bit z (n - 8) \<or> bit w n)"
  by (auto simp add: createPixel_def bit_simps dest: bit_imp_le_length)

lemma channel_bit: 
  fixes x :: uint32_t
  assumes "x \<le> 255" "bit x n" shows "n < 8"
proof -
  have "x < 2 ^ 8" using assms(1) by (simp add: word_le_nat_alt word_less_nat_alt)
  then have "take_bit 8 x = x" by (simp add: take_bit_eq_mask less_mask_eq)
  then have "bit (take_bit 8 x) n" using assms(2) by simp
  then show ?thesis by (simp add: bit_take_bit_iff)
qed

lemma createPixel_getters:
  assumes "x \<le> 255" "y \<le> 255" "z \<le> 255" "w \<le> 255"
  shows "getRed (createPixel x y z w) = x" "getGreen (createPixel x y z w) = y"
    "getBlue (createPixel x y z w) = z" "getAlpha (createPixel x y z w) = w"
proof -
  note cb = channel_bit[OF assms(1)] channel_bit[OF assms(2)] channel_bit[OF assms(3)] channel_bit[OF assms(4)]
  show "getRed (createPixel x y z w) = x"
    by (rule bit_word_eqI) (use cb in \<open>fastforce simp add: bit_getRed bit_createPixel\<close>)
  show "getGreen (createPixel x y z w) = y"
    by (rule bit_word_eqI) (use cb in \<open>fastforce simp add: bit_getGreen bit_createPixel\<close>)
  show "getBlue (createPixel x y z w) = z"
    by (rule bit_word_eqI) (use cb in \<open>fastforce simp add: bit_getBlue bit_createPixel\<close>)
  show "getAlpha (createPixel x y z w) = w"
    by (rule bit_word_eqI) (use cb in \<open>fastforce simp add: bit_getAlpha bit_createPixel\<close>)
qed

lemma createPixel_of_getters:
  "createPixel (getRed p) (getGreen p) (getBlue p) (getAlpha p) = p"
proof (rule bit_word_eqI)
  fix n assume "n < LENGTH(32)"
  then have n: "n < 32" by simp
  consider "n < 8" | "8 \<le> n" "n < 16" | "16 \<le> n" "n < 24" | "24 \<le> n" by linarith
  then show "bit (createPixel (getRed p) (getGreen p) (getBlue p) (getAlpha p)) n = bit p n"
    using n by cases (auto simp add: bit_createPixel bit_getRed bit_getGreen bit_getBlue bit_getAlpha)
qed

lemma channel_le:
  "getRed p \<le> 255" "getGreen p \<le> 255" "getBlue p \<le> 255" "getAlpha p \<le> 255"
  by (simp_all add: getRed_def getGreen_def getBlue_def getAlpha_def word_and_le1)

lemma unat_channel_le:
  "unat (getRed p) \<le> 255" "unat (getGreen p) \<le> 255" "unat (getBlue p) \<le> 255" "unat (getAlpha p) \<le> 255"
  using channel_le[of p] by (simp_all add: word_le_nat_alt)

lemma unat_avg2:
  fixes x y :: uint32_t
  assumes "unat x \<le> 255" "unat y \<le> 255"
  shows "unat ((x + y) div 2) = (unat x + unat y) div 2"
proof -
  have "unat (x + y) = unat x + unat y"
    using assms by (simp add: unat_add_lem [THEN iffD1])
  then show ?thesis by (simp add: unat_div)
qed

lemma unat_avg4:
  fixes x y z w :: uint32_t
  assumes "unat x \<le> 255" "unat y \<le> 255" "unat z \<le> 255" "unat w \<le> 255"
  shows "unat ((x + y + z + w) div 4) = (unat x + unat y + unat z + unat w) div 4"
proof -
  have 1: "unat (x + y) = unat x + unat y"
    using assms by (simp add: unat_add_lem [THEN iffD1])
  have 2: "unat (x + y + z) = unat x + unat y + unat z"
    using assms 1 by (simp add: unat_add_lem [THEN iffD1])
  have "unat (x + y + z + w) = unat x + unat y + unat z + unat w"
    using assms 2 by (simp add: unat_add_lem [THEN iffD1])
  then show ?thesis by (simp add: unat_div)
qed


text \<open>
  Claim C10. The pixel codec round-trips: repacking the four channels extracted from a
  pixel gives the pixel back, and each extractor applied to a pixel packed from channel
  values in 0..255 returns the channel value it was packed from.
\<close>

theorem pixel_codec_roundtrip:
  "createPixel (getRed p) (getGreen p) (getBlue p) (getAlpha p) = p \<and>
   (red \<le> 255 \<and> green \<le> 255 \<and> blue \<le> 255 \<and> alpha \<le> 255 \<longrightarrow>
      getRed (createPixel red green blue alpha) = red \<and>
      getGreen (createPixel red green blue alpha) = green \<and>
      getBlue (createPixel red green blue alpha) = blue \<and>
      getAlpha (createPixel red green blue alpha) = alpha)"
  by (simp add: createPixel_of_getters createPixel_getters)

theorem pixel_codec_roundtrip_witness:
  "createPixel (getRed 0xAABBCCDD) (getGreen 0xAABBCCDD) (getBlue 0xAABBCCDD)
               (getAlpha 0xAABBCCDD) = 0xAABBCCDD \<and>
   (0xAA :: uint32_t) \<le> 255 \<and> (0xBB :: uint32_t) \<le> 255 \<and> (0xCC :: uint32_t) \<le> 255 \<and>
   (0xDD :: uint32_t) \<le> 255 \<and>
   getRed (createPixel 0xAA 0xBB 0xCC 0xDD) = 0xAA \<and>
   getGreen (createPixel 0xAA 0xBB 0xCC 0xDD) = 0xBB \<and>
   getBlue (createPixel 0xAA 0xBB 0xCC 0xDD) = 0xCC \<and>
   getAlpha (createPixel 0xAA 0xBB 0xCC 0xDD) = 0xDD"
  using pixel_codec_roundtrip [of "0xAABBCCDD" "0xAA" "0xBB" "0xCC" "0xDD"] by simp

lemma createAveragePixel_channels:
  "unat (getRed (createAveragePixel p q)) = (unat (getRed p) + unat (getRed q)) div 2"
  "unat (getGreen (createAveragePixel p q)) = (unat (getGreen p) + unat (getGreen q)) div 2"
  "unat (getBlue (createAveragePixel p q)) = (unat (getBlue p) + unat (getBlue q)) div 2"
  "unat (getAlpha (createAveragePixel p q)) = (unat (getAlpha p) + unat (getAlpha q)) div 2"
proof -
  note le = unat_channel_le[of p] unat_channel_le[of q]
  have avg: "unat ((x + y) div 2) \<le> 255" if "unat x \<le> 255" "unat y \<le> 255" for x y :: uint32_t
    using that by (simp add: unat_avg2)
  have b: "(getRed p + getRed q) div 2 \<le> 255" "(getGreen p + getGreen q) div 2 \<le> 255"
    "(getBlue p + getBlue q) div 2 \<le> 255" "(getAlpha p + getAlpha q) div 2 \<le> 255"
    using le by (simp_all add: word_le_nat_alt avg)
  show "unat (getRed (createAveragePixel p q)) = (unat (getRed p) + unat (getRed q)) div 2"
    "unat (getGreen (createAveragePixel p q)) = (unat (getGreen p) + unat (getGreen q)) div 2"
    "unat (getBlue (createAveragePixel p q)) = (unat (getBlue p) + unat (getBlue q)) div 2"
    "unat (getAlpha (createAveragePixel p q)) = (unat (getAlpha p) + unat (getAlpha q)) div 2"
    using le by (simp_all add: createAveragePixel_def Let_def createPixel_getters [OF b] unat_avg2)
qed

lemma quadAveragePixel_channels:
  "unat (getRed (quadAveragePixel p q s t)) =
     (unat (getRed p) + unat (getRed q) + unat (getRed s) + unat (getRed t)) div 4"
  "unat (getGreen (quadAveragePixel p q s t)) =
     (unat (getGreen p) + unat (getGreen q) + unat (getGreen s) + unat (getGreen t)) div 4"
  "unat (getBlue (quadAveragePixel p q s t)) =
     (unat (getBlue p) + unat (getBlue q) + unat (getBlue s) + unat (getBlue t)) div 4"
  "unat (getAlpha (quadAveragePixel p q s t)) =
     (unat (getAlpha p) + unat (getAlpha q) + unat (getAlpha s) + unat (getAlpha t)) div 4"
proof -
  note le = unat_channel_le[of p] unat_channel_le[of q] unat_channel_le[of s] unat_channel_le[of t]
  have avg: "unat ((x + y + z + w) div 4) \<le> 255"
    if "unat x \<le> 255" "unat y \<le> 255" "unat z \<le> 255" "unat w \<le> 255" for x y z w :: uint32_t
    using that by (simp add: unat_avg4)
  have b: "(getRed p + getRed q + getRed s + getRed t) div 4 \<le> 255"
    "(getGreen p + getGreen q + getGreen s + getGreen t) div 4 \<le> 255"
    "(getBlue p + getBlue q + getBlue s + getBlue t) div 4 \<le> 255"
    "(getAlpha p + getAlpha q + getAlpha s + getAlpha t) div 4 \<le> 255"
    using le by (simp_all add: word_le_nat_alt avg)
  show "unat (getRed (quadAveragePixel p q s t)) =
     (unat (getRed p) + unat (getRed q) + unat (getRed s) + unat (getRed t)) div 4"
  "unat (getGreen (quadAveragePixel p q s t)) =
     (unat (getGreen p) + unat (getGreen q) + unat (getGreen s) + unat (getGreen t)) div 4"
  "unat (getBlue (quadAveragePixel p q s t)) =
     (unat (getBlue p) + unat (getBlue q) + unat (getBlue s) + unat (getBlue t)) div 4"
  "unat (getAlpha (quadAveragePixel p q s t)) =
     (unat (getAlpha p) + unat (getAlpha q) + unat (getAlpha s) + unat (getAlpha t)) div 4"
    using le by (simp_all add: quadAveragePixel_def Let_def createPixel_getters [OF b] unat_avg4)
qed

text \<open>
  Claim C7. The 2-way and the 4-way averager compute every channel as the sum of the
  channel values divided by 2 (by 4), truncated, with no rounding adjustment. Red
  channels 3 and 4 average to 3 in the 2-way averager, and four red channels that are
  each 3 or 4, not all 4, average to 3 in the 4-way averager.
\<close>

theorem averagers_truncate:
  "unat (getRed (createAveragePixel p q)) = (unat (getRed p) + unat (getRed q)) div 2 \<and>
   unat (getGreen (createAveragePixel p q)) = (unat (getGreen p) + unat (getGreen q)) div 2 \<and>
   unat (getBlue (createAveragePixel p q)) = (unat (getBlue p) + unat (getBlue q)) div 2 \<and>
   unat (getAlpha (createAveragePixel p q)) = (unat (getAlpha p) + unat (getAlpha q)) div 2 \<and>
   unat (getRed (quadAveragePixel p q s t)) =
     (unat (getRed p) + unat (getRed q) + unat (getRed s) + unat (getRed t)) div 4 \<and>
   unat (getGreen (quadAveragePixel p q s t)) =
     (unat (getGreen p) + unat (getGreen q) + unat (getGreen s) + unat (getGreen t)) div 4 \<and>
   unat (getBlue (quadAveragePixel p q s t)) =
     (unat (getBlue p) + unat (getBlue q) + unat (getBlue s) + unat (getBlue t)) div 4 \<and>
   unat (getAlpha (quadAveragePixel p q s t)) =
     (unat (getAlpha p) + unat (getAlpha q) + unat (getAlpha s) + unat (getAlpha t)) div 4 \<and>
   (getRed p = 3 \<and> getRed q = 4 \<longrightarrow> getRed (createAveragePixel p q) = 3) \<and>
   (getRed p \<in> {3, 4} \<and> getRed q \<in> {3, 4} \<and> getRed s \<in> {3, 4} \<and> getRed t \<in> {3, 4} \<and>
    3 \<in> {getRed p, getRed q, getRed s, getRed t} \<longrightarrow>
      getRed (quadAveragePixel p q s t) = 3)"
proof -
  have two: "getRed (createAveragePixel p q) = 3" if "getRed p = 3" "getRed q = 4"
  proof -
    have "unat (getRed (createAveragePixel p q)) = 3"
      using that by (simp add: createAveragePixel_channels)
    then show ?thesis by (simp add: word_unat_eq_iff)
  qed
  have four: "getRed (quadAveragePixel p q s t) = 3"
    if "getRed p \<in> {3, 4}" "getRed q \<in> {3, 4}" "getRed s \<in> {3, 4}" "getRed t \<in> {3, 4}"
      "3 \<in> {getRed p, getRed q, getRed s, getRed t}"
  proof -
    have "unat (getRed (quadAveragePixel p q s t)) = 3"
      using that by (auto simp add: quadAveragePixel_channels)
    then show ?thesis by (simp add: word_unat_eq_iff)
  qed
  have two': "getRed p = 3 \<and> getRed q = 4 \<longrightarrow> getRed (createAveragePixel p q) = 3"
    using two by blast
  have four': "getRed p \<in> {3, 4} \<and> getRed q \<in> {3, 4} \<and> getRed s \<in> {3, 4} \<and>
    getRed t \<in> {3, 4} \<and> 3 \<in> {getRed p, getRed q, getRed s, getRed t} \<longrightarrow>
      getRed (quadAveragePixel p q s t) = 3"
    using four by blast
  show ?thesis
    by (intro conjI createAveragePixel_channels quadAveragePixel_channels two' four')
qed

theorem averagers_truncate_witness:
  "getRed 0x03000000 = 3 \<and> getRed 0x04000000 = 4 \<and>
   getRed (createAveragePixel 0x03000000 0x04000000) = 3 \<and>
   getRed (quadAveragePixel 0x03000000 0x04000000 0x04000000 0x04000000) = 3"
proof -
  have h: "getRed 0x03000000 = 3" "getRed 0x04000000 = 4"
    by (simp_all add: getRed_def)
  show ?thesis
    using h averagers_truncate [of "0x03000000" "0x04000000" "0x04000000" "0x04000000"]
    by simp
qed

section \<open>C arithmetic and loop rules\<close>

lemma c_int_Some: "INT_MIN \<le> v \<Longrightarrow> v \<le> INT_MAX \<Longrightarrow> c_int v = Some v"
  by (simp add: c_int_def)

lemma c_add_Some: "INT_MIN \<le> x + y \<Longrightarrow> x + y \<le> INT_MAX \<Longrightarrow> c_add x y = Some (x + y)"
  by (simp add: c_add_def c_int_def)

lemma c_mul_Some: "INT_MIN \<le> x * y \<Longrightarrow> x * y \<le> INT_MAX \<Longrightarrow> c_mul x y = Some (x * y)"
  by (simp add: c_mul_def c_int_def)

lemma c_add_eq_Some: "c_add x y = Some z \<Longrightarrow> z = x + y"
  by (simp add: c_add_def c_int_def split: if_splits)

lemma INT_MIN_le_0: "INT_MIN \<le> 0" and INT_MAX_ge_0: "0 \<le> INT_MAX"
  by (simp_all add: INT_MIN_def INT_MAX_def)

lemma for_lt_total:
  assumes step: "\<And>i s. lo \<le> i \<Longrightarrow> i < n \<Longrightarrow> I i s \<Longrightarrow> \<exists>s'. body i s = Some s' \<and> I (i + 1) s'"
    and bounds: "INT_MIN \<le> lo" "n \<le> INT_MAX"
  shows "lo \<le> i \<Longrightarrow> i \<le> n \<Longrightarrow> I i s \<Longrightarrow> \<exists>s'. for_lt i n body s = Some s' \<and> I n s'"
proof (induction "nat (n - i)" arbitrary: i s)
  case 0
  then have "i = n" by simp
  then show ?case using "0.prems" by (subst for_lt.simps) simp
next
  case (Suc k)
  then have lt: "i < n" by linarith
  obtain s' where s': "body i s = Some s'" "I (i + 1) s'"
    using step [OF Suc.prems(1) lt Suc.prems(3)] by blast
  have add: "c_add i 1 = Some (i + 1)"
    using lt bounds Suc.prems(1) by (intro c_add_Some) linarith+
  have "\<exists>t. for_lt (i + 1) n body s' = Some t \<and> I n t"
    using Suc.hyps(2) Suc.prems(1) lt s'(2) by (intro Suc.hyps(1)) linarith+
  then show ?case using lt s'(1) add by (subst for_lt.simps) simp
qed

lemma for_le_total:
  assumes step: "\<And>i s. lo \<le> i \<Longrightarrow> i \<le> n \<Longrightarrow> I i s \<Longrightarrow> \<exists>s'. body i s = Some s' \<and> I (i + 1) s'"
    and bounds: "INT_MIN \<le> lo" "n < INT_MAX"
  shows "lo \<le> i \<Longrightarrow> i \<le> n + 1 \<Longrightarrow> I i s \<Longrightarrow> \<exists>s'. for_le i n body s = Some s' \<and> I (n + 1) s'"
proof (induction "nat (n + 1 - i)" arbitrary: i s)
  case 0
  then have "i = n + 1" by simp
  then show ?case using "0.prems" by (subst for_le.simps) simp
next
  case (Suc k)
  then have lt: "i \<le> n" by linarith
  obtain s' where s': "body i s = Some s'" "I (i + 1) s'"
    using step [OF Suc.prems(1) lt Suc.prems(3)] by blast
  have add: "c_add i 1 = Some (i + 1)"
    using lt bounds Suc.prems(1) by (intro c_add_Some) linarith+
  have "\<exists>t. for_le (i + 1) n body s' = Some t \<and> I (n + 1) t"
    using Suc.hyps(2) Suc.prems(1) lt s'(2) by (intro Suc.hyps(1)) linarith+
  then show ?case using lt s'(1) add by (subst for_le.simps) simp
qed

lemma for_le_partial:
  assumes step: "\<And>i s t. lo \<le> i \<Longrightarrow> i \<le> n \<Longrightarrow> I i s \<Longrightarrow> body i s = Some t \<Longrightarrow> I (i + 1) t"
  shows "lo \<le> i \<Longrightarrow> i \<le> n + 1 \<Longrightarrow> I i s \<Longrightarrow> for_le i n body s = Some s' \<Longrightarrow> I (n + 1) s'"
proof (induction "nat (n + 1 - i)" arbitrary: i s)
  case 0
  then have "i = n + 1" by simp
  then show ?case using "0.prems" by (subst (asm) for_le.simps) simp
next
  case (Suc k)
  then have lt: "i \<le> n" by linarith
  from Suc.prems(4) lt obtain t where t: "body i s = Some t" "c_add i 1 = Some (i + 1)"
    "for_le (i + 1) n body t = Some s'"
    by (subst (asm) for_le.simps) (auto simp add: bind_eq_Some_conv dest: c_add_eq_Some)
  have "I (i + 1) t" using step [OF Suc.prems(1) lt Suc.prems(3) t(1)] .
  then show ?case
    using Suc.hyps(2) Suc.prems(1) lt t(3) by (intro Suc.hyps(1) [of "i + 1" t]) linarith+
qed

lemma for_le_overflow: "i \<le> INT_MAX \<Longrightarrow> for_le i INT_MAX body s = None"
proof (induction "nat (INT_MAX - i)" arbitrary: i s)
  case 0
  then have i: "i = INT_MAX" by simp
  have "c_add INT_MAX 1 = None" by (simp add: c_add_def c_int_def INT_MAX_def INT_MIN_def)
  then show ?case unfolding i by (subst for_le.simps) (simp split: Option.bind_split)
next
  case (Suc k)
  then have lt: "i < INT_MAX" by linarith
  have "for_le (i + 1) INT_MAX body t = None" for t
    using Suc.hyps(2) lt by (intro Suc.hyps(1)) linarith+
  then show ?case using lt
    by (subst for_le.simps) (auto split: Option.bind_split dest: c_add_eq_Some)
qed


lemma idx_lt:
  fixes i j w :: int
  assumes "i' < i" "j' < w" "0 \<le> j" "0 \<le> w"
  shows "i' * w + j' < i * w + j"
proof -
  have "(i' + 1) * w \<le> i * w"
    using assms by (intro mult_right_mono) auto
  then show ?thesis using assms by (simp add: algebra_simps)
qed

lemma idx_bound:
  fixes i j w h :: int
  assumes "0 \<le> i" "i < h" "0 \<le> j" "j < w"
  shows "0 \<le> i * w + j" "i * w + j < h * w" "0 \<le> i * w" "i * w \<le> i * w + j"
proof -
  show "i * w + j < h * w" using idx_lt [of i h j w 0] assms by simp
  show "0 \<le> i * w" using assms by simp
  then show "0 \<le> i * w + j" "i * w \<le> i * w + j" using assms by simp_all
qed

lemma idx_inj:
  fixes i j w :: int
  assumes "0 \<le> j" "j < w" "0 \<le> j'" "j' < w" "i * w + j = i' * w + j'"
  shows "i = i' \<and> j = j'"
proof -
  have "\<not> i < i'" using idx_lt [of i i' j w j'] assms by auto
  moreover have "\<not> i' < i" using idx_lt [of i' i j' w j] assms by auto
  ultimately have "i = i'" by simp
  then show ?thesis using assms by simp
qed

lemma for_lt_fill:
  assumes body: "\<And>i out. 0 \<le> i \<Longrightarrow> i < n \<Longrightarrow> length out = length buf \<Longrightarrow>
      body i out = Some (out[nat i := F i])"
    and n: "0 \<le> n" "n \<le> INT_MAX" "n \<le> int (length buf)"
  shows "\<exists>out. for_lt 0 n body buf = Some out \<and> length out = length buf \<and>
           (\<forall>m. 0 \<le> m \<and> m < n \<longrightarrow> out ! nat m = F m)"
proof -
  define I where "I i out \<longleftrightarrow> length out = length buf \<and>
    (\<forall>m. 0 \<le> m \<and> m < i \<longrightarrow> out ! nat m = F m)" for i :: int and out
  have step: "\<exists>s'. body i s = Some s' \<and> I (i + 1) s'" if "0 \<le> i" "i < n" "I i s" for i s
  proof -
    have len: "length s = length buf" using that(3) by (simp add: I_def)
    have "I (i + 1) (s[nat i := F i])"
      unfolding I_def
    proof (intro conjI allI impI)
      show "length (s[nat i := F i]) = length buf" using len by simp
      fix m assume m: "0 \<le> m \<and> m < i + 1"
      show "s[nat i := F i] ! nat m = F m"
      proof (cases "m = i")
        case True
        then show ?thesis using that n len by simp
      next
        case False
        then have "nat m \<noteq> nat i" "m < i" using m that by auto
        then show ?thesis using that(3) m by (simp add: I_def)
      qed
    qed
    then show ?thesis using body [OF that(1,2) len] by simp
  qed
  have "\<exists>s'. for_lt 0 n body buf = Some s' \<and> I n s'"
    by (rule for_lt_total [where I = I and lo = 0])
       (use step n INT_MIN_le_0 in \<open>auto simp add: I_def\<close>)
  then show ?thesis by (simp add: I_def)
qed

lemma for_lt_fill2:
  assumes body: "\<And>i j out. 0 \<le> i \<Longrightarrow> i < h \<Longrightarrow> 0 \<le> j \<Longrightarrow> j < w \<Longrightarrow>
      length out = length buf \<Longrightarrow> body i j out = Some (out[nat (i * w + j) := F i j])"
    and n: "0 \<le> h" "h \<le> INT_MAX" "0 \<le> w" "w \<le> INT_MAX" "h * w \<le> int (length buf)"
  shows "\<exists>out. for_lt 0 h (\<lambda>i. for_lt 0 w (body i)) buf = Some out \<and>
           length out = length buf \<and>
           (\<forall>i j. 0 \<le> i \<and> i < h \<and> 0 \<le> j \<and> j < w \<longrightarrow> out ! nat (i * w + j) = F i j)"
proof -
  define J where "J i j out \<longleftrightarrow> length out = length buf \<and>
    (\<forall>i' j'. 0 \<le> i' \<and> 0 \<le> j' \<and> j' < w \<and> (i' < i \<or> i' = i \<and> j' < j) \<longrightarrow>
        out ! nat (i' * w + j') = F i' j')" for i j :: int and out
  have inner_step: "\<exists>s'. body i j s = Some s' \<and> J i (j + 1) s'"
    if "0 \<le> i" "i < h" "0 \<le> j" "j < w" "J i j s" for i j s
  proof -
    have len: "length s = length buf" using that(5) by (simp add: J_def)
    have pos: "0 \<le> i * w + j" "i * w + j < h * w" using idx_bound [OF that(1-4)] by simp_all
    have "J i (j + 1) (s[nat (i * w + j) := F i j])"
      unfolding J_def
    proof (intro conjI allI impI)
      show "length (s[nat (i * w + j) := F i j]) = length buf" using len by simp
      fix i' j'
      assume a: "0 \<le> i' \<and> 0 \<le> j' \<and> j' < w \<and> (i' < i \<or> i' = i \<and> j' < j + 1)"
      show "s[nat (i * w + j) := F i j] ! nat (i' * w + j') = F i' j'"
      proof (cases "i' = i \<and> j' = j")
        case True
        then show ?thesis using pos n len by simp
      next
        case False
        have "i' * w + j' \<noteq> i * w + j"
          using idx_inj [of j' w j i' i] a that False by auto
        moreover have "0 \<le> i' * w + j'" using a n by simp
        ultimately have "nat (i' * w + j') \<noteq> nat (i * w + j)" using pos by simp
        moreover have "i' < i \<or> i' = i \<and> j' < j" using a False by auto
        ultimately show ?thesis using that(5) a by (simp add: J_def)
      qed
    qed
    then show ?thesis using body [OF that(1-4) len] by simp
  qed
  have outer_step: "\<exists>s'. for_lt 0 w (body i) s = Some s' \<and> J (i + 1) 0 s'"
    if "0 \<le> i" "i < h" "J i 0 s" for i s
  proof -
    have "\<exists>s'. for_lt 0 w (body i) s = Some s' \<and> J i w s'"
      by (rule for_lt_total [where I = "J i" and lo = 0])
         (use inner_step that n INT_MIN_le_0 in auto)
    moreover have "J (i + 1) 0 t" if "J i w t" for t
      using that unfolding J_def by (auto simp add: less_le)
    ultimately show ?thesis by blast
  qed
  have "\<exists>s'. for_lt 0 h (\<lambda>i. for_lt 0 w (body i)) buf = Some s' \<and> J h 0 s'"
    by (rule for_lt_total [where I = "\<lambda>i. J i 0" and lo = 0])
       (use outer_step n INT_MIN_le_0 in \<open>auto simp add: J_def\<close>)
  then show ?thesis by (auto simp add: J_def)
qed

section \<open>Images and channel rotation\<close>

lemma wf_imageD:
  assumes "wf_image img"
  shows "0 \<le> width img" "width img \<le> INT_MAX" "0 \<le> height img" "height img \<le> INT_MAX"
    "width img * height img \<le> INT_MAX" "int (length (data img)) = height img * width img"
  using assms by (simp_all add: wf_image_def mult.commute)

lemma INT_MIN_neg: "INT_MIN < 0"
  by (simp add: INT_MIN_def)

lemma pixel_index:
  assumes "wf_image img" "0 \<le> row" "row < height img" "0 \<le> col" "col < width img"
  shows "c_mul row (width img) = Some (row * width img)"
    "c_add (row * width img) col = Some (row * width img + col)"
    "0 \<le> row * width img + col"
    "row * width img + col < int (length (data img))"
    "load (data img) (row * width img + col) = Some (px img row col)"
proof -
  note wf = wf_imageD [OF assms(1)]
  note b = idx_bound [OF assms(2-5)]
  have le: "row * width img + col \<le> INT_MAX" using b(2) wf(5) by (simp add: mult.commute)
  show "c_mul row (width img) = Some (row * width img)"
    using b(3,4) le INT_MIN_neg by (intro c_mul_Some) linarith+
  show "c_add (row * width img) col = Some (row * width img + col)"
    using b(1) le INT_MIN_neg by (intro c_add_Some) linarith+
  show "0 \<le> row * width img + col" by (rule b(1))
  show lt: "row * width img + col < int (length (data img))" using b(2) wf(6) by simp
  show "load (data img) (row * width img + col) = Some (px img row col)"
    using b(1) lt by (simp add: load_def px_def)
qed

lemma getPixel_px:
  assumes "wf_image img" "0 \<le> row" "row < height img" "0 \<le> col" "col < width img"
  shows "getPixel img row col = Some (px img row col)"
  by (simp add: getPixel_def pixel_index [OF assms])

lemma rot_getters:
  "getRed (createPixel (getBlue p) (getRed p) (getGreen p) (getAlpha p)) = getBlue p"
  "getGreen (createPixel (getBlue p) (getRed p) (getGreen p) (getAlpha p)) = getRed p"
  "getBlue (createPixel (getBlue p) (getRed p) (getGreen p) (getAlpha p)) = getGreen p"
  "getAlpha (createPixel (getBlue p) (getRed p) (getGreen p) (getAlpha p)) = getAlpha p"
  by (simp_all add: createPixel_getters channel_le)

lemma rot_three_times:
  fixes p :: uint32_t
  defines "rot \<equiv> \<lambda>q. createPixel (getBlue q) (getRed q) (getGreen q) (getAlpha q)"
  shows "rot (rot (rot p)) = p"
  unfolding rot_def by (simp add: createPixel_getters channel_le createPixel_of_getters)

lemma color_rot_result:
  assumes wf: "wf_image input_img" and len: "length (data output_img) = length (data input_img)"
  shows "imgproc_color_rot input_img output_img =
    Some (output_img\<lparr>data :=
      map (\<lambda>p. createPixel (getBlue p) (getRed p) (getGreen p) (getAlpha p)) (data input_img)\<rparr>)"
proof -
  note w = wf_imageD [OF wf]
  define n where "n = width input_img * height input_img"
  define F where "F m = (\<lambda>p. createPixel (getBlue p) (getRed p) (getGreen p) (getAlpha p))
    (data input_img ! nat m)" for m :: int
  have n: "0 \<le> n" "n \<le> INT_MAX" "n = int (length (data input_img))"
    using w by (simp_all add: n_def mult.commute)
  have mul: "c_mul (width input_img) (height input_img) = Some n"
    unfolding n_def using n INT_MIN_neg by (intro c_mul_Some) (simp_all add: n_def)
  have "\<exists>out. for_lt 0 n (\<lambda>i out. do { my_pixel \<leftarrow> load (data input_img) i;
                   store out i (createPixel (getBlue my_pixel) (getRed my_pixel)
                                            (getGreen my_pixel) (getAlpha my_pixel)) })
              (data output_img) = Some out \<and> length out = length (data output_img) \<and>
           (\<forall>m. 0 \<le> m \<and> m < n \<longrightarrow> out ! nat m = F m)"
    by (rule for_lt_fill) (use n len in \<open>simp_all add: load_def store_def F_def\<close>)
  then obtain out where out: "for_lt 0 n (\<lambda>i out. do { my_pixel \<leftarrow> load (data input_img) i;
                   store out i (createPixel (getBlue my_pixel) (getRed my_pixel)
                                            (getGreen my_pixel) (getAlpha my_pixel)) })
              (data output_img) = Some out" "length out = length (data output_img)"
           "\<And>m. 0 \<le> m \<Longrightarrow> m < n \<Longrightarrow> out ! nat m = F m"
    by blast
  have "out = map (\<lambda>p. createPixel (getBlue p) (getRed p) (getGreen p) (getAlpha p))
                  (data input_img)"
  proof (rule nth_equalityI)
    show "length out = length (map (\<lambda>p. createPixel (getBlue p) (getRed p) (getGreen p)
      (getAlpha p)) (data input_img))" using out(2) len by simp
    fix k assume "k < length out"
    then have "k < length (data input_img)" using out(2) len by simp
    then show "out ! k = map (\<lambda>p. createPixel (getBlue p) (getRed p) (getGreen p)
      (getAlpha p)) (data input_img) ! k"
      using out(3) [of "int k"] n by (simp add: F_def)
  qed
  then show ?thesis using mul out(1) by (simp add: imgproc_color_rot_def)
qed


lemma px_update_data [simp]:
  "px (img\<lparr>data := d\<rparr>) row col = d ! nat (row * width img + col)"
  by (simp add: px_def)

lemma color_rot_pixels:
  assumes "wf_image input_img" "wf_image output_img"
    "width output_img = width input_img" "height output_img = height input_img"
  shows "\<exists>out. imgproc_color_rot input_img output_img = Some out \<and>
    width out = width input_img \<and> height out = height input_img \<and>
    (\<forall>row col. 0 \<le> row \<and> row < height input_img \<and> 0 \<le> col \<and> col < width input_img \<longrightarrow>
       px out row col = (\<lambda>p. createPixel (getBlue p) (getRed p) (getGreen p) (getAlpha p))
                          (px input_img row col))"
proof -
  have len: "length (data output_img) = length (data input_img)"
    using assms by (simp add: wf_image_def)
  show ?thesis
  proof (intro exI conjI allI impI)
    show "imgproc_color_rot input_img output_img = Some (output_img\<lparr>data :=
      map (\<lambda>p. createPixel (getBlue p) (getRed p) (getGreen p) (getAlpha p)) (data input_img)\<rparr>)"
      by (rule color_rot_result [OF assms(1) len])
    fix row col
    assume "0 \<le> row \<and> row < height input_img \<and> 0 \<le> col \<and> col < width input_img"
    then have "0 \<le> row * width input_img + col"
      "row * width input_img + col < int (length (data input_img))"
      using pixel_index(3,4) [OF assms(1)] by simp_all
    then show "px (output_img\<lparr>data :=
      map (\<lambda>p. createPixel (getBlue p) (getRed p) (getGreen p) (getAlpha p)) (data input_img)\<rparr>)
      row col = (\<lambda>p. createPixel (getBlue p) (getRed p) (getGreen p) (getAlpha p))
                          (px input_img row col)"
      using assms(3) by (simp add: px_def)
  qed (use assms in simp_all)
qed

text \<open>
  Claim C8. Into a destination of the same dimensions, the channel rotation returns an
  image of those dimensions in which the pixel at every (row, col) has as red the blue
  of the input pixel at (row, col), as green its red, as blue its green, and the same
  alpha.
\<close>

theorem color_rot_channels:
  assumes "wf_image input_img" "wf_image output_img"
    "width output_img = width input_img" "height output_img = height input_img"
  shows "\<exists>out. imgproc_color_rot input_img output_img = Some out \<and>
    width out = width input_img \<and> height out = height input_img \<and>
    (\<forall>row col. 0 \<le> row \<and> row < height input_img \<and> 0 \<le> col \<and> col < width input_img \<longrightarrow>
       getRed (px out row col) = getBlue (px input_img row col) \<and>
       getGreen (px out row col) = getRed (px input_img row col) \<and>
       getBlue (px out row col) = getGreen (px input_img row col) \<and>
       getAlpha (px out row col) = getAlpha (px input_img row col))"
proof -
  obtain out where out: "imgproc_color_rot input_img output_img = Some out"
    "width out = width input_img" "height out = height input_img"
    "\<And>row col. 0 \<le> row \<and> row < height input_img \<and> 0 \<le> col \<and> col < width input_img \<Longrightarrow>
       px out row col = createPixel (getBlue (px input_img row col)) (getRed (px input_img row col))
         (getGreen (px input_img row col)) (getAlpha (px input_img row col))"
    using color_rot_pixels [OF assms] by auto
  show ?thesis
    by (intro exI [of _ out] conjI allI impI out(1,2,3)) (simp_all add: out(4) rot_getters)
qed

theorem color_rot_channels_witness:
  "wf_image \<lparr>width = 2, height = 1, data = [0xAABBCCDD, 0x01020304]\<rparr> \<and>
   wf_image \<lparr>width = 2, height = 1, data = [0, 0]\<rparr> \<and>
   (\<exists>out. imgproc_color_rot \<lparr>width = 2, height = 1, data = [0xAABBCCDD, 0x01020304]\<rparr>
                             \<lparr>width = 2, height = 1, data = [0, 0]\<rparr> = Some out \<and>
      getRed (px out 0 0) = 0xCC \<and> getGreen (px out 0 0) = 0xAA \<and>
      getBlue (px out 0 0) = 0xBB \<and> getAlpha (px out 0 0) = 0xDD \<and>
      getRed (px out 0 1) = 0x03)"
proof -
  have wf: "wf_image \<lparr>width = 2, height = 1, data = [0xAABBCCDD, 0x01020304]\<rparr>"
    "wf_image \<lparr>width = 2, height = 1, data = [0, 0]\<rparr>"
    by (simp_all add: wf_image_def INT_MAX_def)
  from color_rot_channels [OF wf] obtain out where out:
    "imgproc_color_rot \<lparr>width = 2, height = 1, data = [0xAABBCCDD, 0x01020304]\<rparr>
                       \<lparr>width = 2, height = 1, data = [0, 0]\<rparr> = Some out"
    "\<And>row col. 0 \<le> row \<and> row < 1 \<and> 0 \<le> col \<and> col < 2 \<Longrightarrow>
       getRed (px out row col) =
         getBlue (px \<lparr>width = 2, height = 1, data = [0xAABBCCDD, 0x01020304]\<rparr> row col) \<and>
       getGreen (px out row col) =
         getRed (px \<lparr>width = 2, height = 1, data = [0xAABBCCDD, 0x01020304]\<rparr> row col) \<and>
       getBlue (px out row col) =
         getGreen (px \<lparr>width = 2, height = 1, data = [0xAABBCCDD, 0x01020304]\<rparr> row col) \<and>
       getAlpha (px out row col) =
         getAlpha (px \<lparr>width = 2, height = 1, data = [0xAABBCCDD, 0x01020304]\<rparr> row col)"
    by auto
  have ch: "getBlue 0xAABBCCDD = 0xCC" "getRed 0xAABBCCDD = 0xAA" "getGreen 0xAABBCCDD = 0xBB"
    "getAlpha 0xAABBCCDD = 0xDD" "getBlue 0x01020304 = 0x03"
    by (simp_all add: getBlue_def getRed_def getGreen_def getAlpha_def)
  have "getRed (px out 0 0) = 0xCC \<and> getGreen (px out 0 0) = 0xAA \<and>
      getBlue (px out 0 0) = 0xBB \<and> getAlpha (px out 0 0) = 0xDD"
    using out(2) [of 0 0] by (simp add: px_def ch)
  moreover have "getRed (px out 0 1) = 0x03"
    using out(2) [of 0 1] by (simp add: px_def ch)
  ultimately show ?thesis using out(1) wf by simp
qed

text \<open>
  Claim C4. Rotating the channels of an image three times in succession, each time into
  a fresh destination of the same dimensions, gives back the image, pixel for pixel.
\<close>

theorem color_rot_three_times:
  assumes "wf_image img" "wf_image dest1" "wf_image dest2" "wf_image dest3"
    "width dest1 = width img" "height dest1 = height img"
    "width dest2 = width img" "height dest2 = height img"
    "width dest3 = width img" "height dest3 = height img"
  shows "do { out1 \<leftarrow> imgproc_color_rot img dest1;
              out2 \<leftarrow> imgproc_color_rot out1 dest2;
              imgproc_color_rot out2 dest3 } = Some img"
proof -
  let ?rot = "\<lambda>p. createPixel (getBlue p) (getRed p) (getGreen p) (getAlpha p)"
  have len: "length (data dest1) = length (data img)" "length (data dest2) = length (data img)"
    "length (data dest3) = length (data img)"
    using assms by (simp_all add: wf_image_def)
  let ?out1 = "dest1\<lparr>data := map ?rot (data img)\<rparr>"
  let ?out2 = "dest2\<lparr>data := map ?rot (data ?out1)\<rparr>"
  have wf1: "wf_image ?out1" using assms by (simp add: wf_image_def)
  have wf2: "wf_image ?out2" using assms by (simp add: wf_image_def)
  have 1: "imgproc_color_rot img dest1 = Some ?out1"
    by (rule color_rot_result [OF assms(1) len(1)])
  have 2: "imgproc_color_rot ?out1 dest2 = Some ?out2"
    by (rule color_rot_result [OF wf1]) (simp add: len)
  have 3: "imgproc_color_rot ?out2 dest3 = Some (dest3\<lparr>data := map ?rot (data ?out2)\<rparr>)"
    by (rule color_rot_result [OF wf2]) (simp add: len)
  have "map ?rot (data ?out2) = data img"
    by (simp add: o_def createPixel_getters channel_le createPixel_of_getters)
  then have "dest3\<lparr>data := map ?rot (data ?out2)\<rparr> = img"
    using assms(9,10) by simp
  then show ?thesis using 1 2 3 by simp
qed

theorem color_rot_three_times_witness:
  "wf_image \<lparr>width = 2, height = 1, data = [0xAABBCCDD, 0x01020304]\<rparr> \<and>
   wf_image \<lparr>width = 2, height = 1, data = [0, 0]\<rparr> \<and>
   do { out1 \<leftarrow> imgproc_color_rot \<lparr>width = 2, height = 1, data = [0xAABBCCDD, 0x01020304]\<rparr>
                                     \<lparr>width = 2, height = 1, data = [0, 0]\<rparr>;
        out2 \<leftarrow> imgproc_color_rot out1 \<lparr>width = 2, height = 1, data = [0, 0]\<rparr>;
        imgproc_color_rot out2 \<lparr>width = 2, height = 1, data = [0, 0]\<rparr> }
     = Some \<lparr>width = 2, height = 1, data = [0xAABBCCDD, 0x01020304]\<rparr>"
proof -
  have wf: "wf_image \<lparr>width = 2, height = 1, data = [0xAABBCCDD, 0x01020304]\<rparr>"
    "wf_image \<lparr>width = 2, height = 1, data = [0, 0]\<rparr>"
    by (simp_all add: wf_image_def INT_MAX_def)
  show ?thesis
    using color_rot_three_times [OF wf(1) wf(2) wf(2) wf(2)] wf by simp
qed

section \<open>Squash\<close>

lemma store_index:
  assumes "0 \<le> i" "i < h" "0 \<le> j" "j < w" "h * w \<le> int (length out)" "h * w \<le> INT_MAX"
  shows "c_mul i w = Some (i * w)" "c_add (i * w) j = Some (i * w + j)"
    "store out (i * w + j) v = Some (out[nat (i * w + j) := v])"
proof -
  note b = idx_bound [OF assms(1-4)]
  show "c_mul i w = Some (i * w)"
    using b assms(6) INT_MIN_neg by (intro c_mul_Some) linarith+
  show "c_add (i * w) j = Some (i * w + j)"
    using b assms(6) INT_MIN_neg by (intro c_add_Some) linarith+
  show "store out (i * w + j) v = Some (out[nat (i * w + j) := v])"
    using b assms(5) by (simp add: store_def)
qed

lemma squash_pixels:
  assumes wf: "wf_image input_img" "wf_image output_img"
    and fac: "0 < xfac" "0 < yfac"
    and inb: "\<And>i j. 0 \<le> i \<Longrightarrow> i < height output_img \<Longrightarrow> 0 \<le> j \<Longrightarrow> j < width output_img \<Longrightarrow>
        i * yfac < height input_img \<and> j * xfac < width input_img"
  shows "\<exists>out. imgproc_squash input_img output_img xfac yfac = Some out \<and>
    width out = width output_img \<and> height out = height output_img \<and>
    length (data out) = length (data output_img) \<and>
    (\<forall>i j. 0 \<le> i \<and> i < height output_img \<and> 0 \<le> j \<and> j < width output_img \<longrightarrow>
       px out i j = px input_img (i * yfac) (j * xfac))"
proof -
  note wi = wf_imageD [OF wf(1)] and wo = wf_imageD [OF wf(2)]
  let ?body = "\<lambda>i j out.
               do { src_row \<leftarrow> c_mul i yfac;
                    src_col \<leftarrow> c_mul j xfac;
                    t \<leftarrow> c_mul src_row (width input_img);
                    src_idx \<leftarrow> c_add t src_col;
                    pixel \<leftarrow> load (data input_img) src_idx;
                    u \<leftarrow> c_mul i (width output_img);
                    dst_idx \<leftarrow> c_add u j;
                    store out dst_idx pixel }"
  have body: "?body i j out = Some (out[nat (i * width output_img + j) :=
      px input_img (i * yfac) (j * xfac)])"
    if "0 \<le> i" "i < height output_img" "0 \<le> j" "j < width output_img"
      "length out = length (data output_img)" for i j out
  proof -
    have s: "i * yfac < height input_img" "j * xfac < width input_img"
      using inb [OF that(1-4)] by simp_all
    have n: "0 \<le> i * yfac" "0 \<le> j * xfac" using that fac by simp_all
    have 1: "c_mul i yfac = Some (i * yfac)"
      using s n wi INT_MIN_neg by (intro c_mul_Some) linarith+
    have 2: "c_mul j xfac = Some (j * xfac)"
      using s n wi INT_MIN_neg by (intro c_mul_Some) linarith+
    note 3 = pixel_index [OF wf(1) n(1) s(1) n(2) s(2)]
    have "height output_img * width output_img \<le> int (length out)"
      "height output_img * width output_img \<le> INT_MAX"
      using that(5) wo by (simp_all add: mult.commute)
    note 4 = store_index [OF that(1-4) this]
    show ?thesis by (simp add: 1 2 3 4)
  qed
  have "\<exists>out. for_lt 0 (height output_img) (\<lambda>i. for_lt 0 (width output_img) (?body i))
           (data output_img) = Some out \<and> length out = length (data output_img) \<and>
           (\<forall>i j. 0 \<le> i \<and> i < height output_img \<and> 0 \<le> j \<and> j < width output_img \<longrightarrow>
              out ! nat (i * width output_img + j) = px input_img (i * yfac) (j * xfac))"
    by (rule for_lt_fill2 [OF body]) (use wo in simp_all)
  then obtain out where out:
    "for_lt 0 (height output_img) (\<lambda>i. for_lt 0 (width output_img) (?body i))
           (data output_img) = Some out" "length out = length (data output_img)"
    "\<forall>i j. 0 \<le> i \<and> i < height output_img \<and> 0 \<le> j \<and> j < width output_img \<longrightarrow>
              out ! nat (i * width output_img + j) = px input_img (i * yfac) (j * xfac)"
    by blast
  have "imgproc_squash input_img output_img xfac yfac = Some (output_img\<lparr>data := out\<rparr>)"
    using out(1) by (simp add: imgproc_squash_def Let_def)
  then show ?thesis using out(2,3) by simp
qed

lemma image_eqI:
  assumes "wf_image img" "width out = width img" "height out = height img"
    "length (data out) = length (data img)"
    "\<And>i j. 0 \<le> i \<Longrightarrow> i < height img \<Longrightarrow> 0 \<le> j \<Longrightarrow> j < width img \<Longrightarrow> px out i j = px img i j"
  shows "out = img"
proof -
  note w = wf_imageD [OF assms(1)]
  have "data out = data img"
  proof (rule nth_equalityI)
    show "length (data out) = length (data img)" by (rule assms(4))
    fix k assume "k < length (data out)"
    then have k: "int k < height img * width img" using assms(4) w(6) by simp
    have pos: "0 < width img"
    proof (rule ccontr)
      assume "\<not> 0 < width img"
      then have z: "width img = 0" using w(1) by linarith
      have "height img * width img = 0" unfolding z by simp
      then show False using k by linarith
    qed
    define i j where "i = int k div width img" and "j = int k mod width img"
    have ij: "int k = i * width img + j" "0 \<le> j" "j < width img" "0 \<le> i"
      using pos by (simp_all add: i_def j_def pos_imp_zdiv_nonneg_iff)
    have "i < height img"
    proof (rule ccontr)
      assume "\<not> i < height img"
      then have "height img * width img \<le> i * width img"
        using pos by (intro mult_right_mono) simp_all
      then show False using k ij by linarith
    qed
    then have "px out i j = px img i j" using assms(5) ij by simp
    then have "data out ! nat (i * width img + j) = data img ! nat (i * width img + j)"
      by (simp add: px_def assms(2))
    moreover have "nat (i * width img + j) = k" using ij(1) by linarith
    ultimately show "data out ! k = data img ! k" by simp
  qed
  then show ?thesis using assms(2,3) by simp
qed


text \<open>
  Claim C6. For positive factors such that every sampled coordinate is in bounds, squash
  returns the destination with each pixel (i, j) a verbatim copy of the source pixel at
  row \<open>i * yfac\<close>, column \<open>j * xfac\<close>. With factors 1 and 1 into a destination of the
  same size the result is the source image. Squashing a 4 x 4 image with factors 2 and 2
  into a 2 x 2 destination gives destination (0,0) = source (0,0) and destination (1,1) =
  source (2,2).
\<close>

theorem squash_samples:
  "(wf_image input_img \<and> wf_image output_img \<and> 0 < xfac \<and> 0 < yfac \<and>
      (\<forall>i j. 0 \<le> i \<and> i < height output_img \<and> 0 \<le> j \<and> j < width output_img \<longrightarrow>
         i * yfac < height input_img \<and> j * xfac < width input_img) \<longrightarrow>
    (\<exists>out. imgproc_squash input_img output_img xfac yfac = Some out \<and>
        width out = width output_img \<and> height out = height output_img \<and>
        (\<forall>i j. 0 \<le> i \<and> i < height output_img \<and> 0 \<le> j \<and> j < width output_img \<longrightarrow>
           px out i j = px input_img (i * yfac) (j * xfac)))) \<and>
   (wf_image input_img \<and> wf_image output_img \<and> width output_img = width input_img \<and>
      height output_img = height input_img \<longrightarrow>
    imgproc_squash input_img output_img 1 1 = Some input_img) \<and>
   (wf_image input_img \<and> wf_image output_img \<and> width input_img = 4 \<and> height input_img = 4 \<and>
      width output_img = 2 \<and> height output_img = 2 \<longrightarrow>
    (\<exists>out. imgproc_squash input_img output_img 2 2 = Some out \<and>
        px out 0 0 = px input_img 0 0 \<and> px out 1 1 = px input_img 2 2))"
proof (intro conjI impI)
  assume a: "wf_image input_img \<and> wf_image output_img \<and> 0 < xfac \<and> 0 < yfac \<and>
      (\<forall>i j. 0 \<le> i \<and> i < height output_img \<and> 0 \<le> j \<and> j < width output_img \<longrightarrow>
         i * yfac < height input_img \<and> j * xfac < width input_img)"
  then have "\<exists>out. imgproc_squash input_img output_img xfac yfac = Some out \<and>
    width out = width output_img \<and> height out = height output_img \<and>
    length (data out) = length (data output_img) \<and>
    (\<forall>i j. 0 \<le> i \<and> i < height output_img \<and> 0 \<le> j \<and> j < width output_img \<longrightarrow>
       px out i j = px input_img (i * yfac) (j * xfac))"
    by (intro squash_pixels) simp_all
  then show "\<exists>out. imgproc_squash input_img output_img xfac yfac = Some out \<and>
        width out = width output_img \<and> height out = height output_img \<and>
        (\<forall>i j. 0 \<le> i \<and> i < height output_img \<and> 0 \<le> j \<and> j < width output_img \<longrightarrow>
           px out i j = px input_img (i * yfac) (j * xfac))"
    by blast
next
  assume a: "wf_image input_img \<and> wf_image output_img \<and> width output_img = width input_img \<and>
      height output_img = height input_img"
  then have "\<exists>out. imgproc_squash input_img output_img 1 1 = Some out \<and>
    width out = width output_img \<and> height out = height output_img \<and>
    length (data out) = length (data output_img) \<and>
    (\<forall>i j. 0 \<le> i \<and> i < height output_img \<and> 0 \<le> j \<and> j < width output_img \<longrightarrow>
       px out i j = px input_img (i * 1) (j * 1))"
    by (intro squash_pixels) simp_all
  then obtain out where out: "imgproc_squash input_img output_img 1 1 = Some out"
    "width out = width output_img" "height out = height output_img"
    "length (data out) = length (data output_img)"
    "\<And>i j. 0 \<le> i \<Longrightarrow> i < height output_img \<Longrightarrow> 0 \<le> j \<Longrightarrow> j < width output_img \<Longrightarrow>
       px out i j = px input_img i j"
    by auto
  have "out = input_img"
    by (rule image_eqI) (use a out in \<open>simp_all add: wf_image_def\<close>)
  then show "imgproc_squash input_img output_img 1 1 = Some input_img"
    using out(1) by simp
next
  assume a: "wf_image input_img \<and> wf_image output_img \<and> width input_img = 4 \<and>
      height input_img = 4 \<and> width output_img = 2 \<and> height output_img = 2"
  then have "\<exists>out. imgproc_squash input_img output_img 2 2 = Some out \<and>
    width out = width output_img \<and> height out = height output_img \<and>
    length (data out) = length (data output_img) \<and>
    (\<forall>i j. 0 \<le> i \<and> i < height output_img \<and> 0 \<le> j \<and> j < width output_img \<longrightarrow>
       px out i j = px input_img (i * 2) (j * 2))"
    by (intro squash_pixels) simp_all
  then obtain out where out: "imgproc_squash input_img output_img 2 2 = Some out"
    "\<And>i j. 0 \<le> i \<and> i < height output_img \<and> 0 \<le> j \<and> j < width output_img \<Longrightarrow>
       px out i j = px input_img (i * 2) (j * 2)"
    by auto
  have "px out 0 0 = px input_img 0 0" using out(2) [of 0 0] a by simp
  moreover have "px out 1 1 = px input_img 2 2" using out(2) [of 1 1] a by simp
  ultimately show "\<exists>out. imgproc_squash input_img output_img 2 2 = Some out \<and>
        px out 0 0 = px input_img 0 0 \<and> px out 1 1 = px input_img 2 2"
    using out(1) by blast
qed

theorem squash_samples_witness:
  "wf_image \<lparr>width = 4, height = 4, data = [0, 1, 2, 3, 4, 5, 6, 7, 8, 9, 10, 11, 12, 13, 14, 15]\<rparr> \<and>
   wf_image \<lparr>width = 2, height = 2, data = [0, 0, 0, 0]\<rparr> \<and>
   wf_image \<lparr>width = 4, height = 4, data = [0, 0, 0, 0, 0, 0, 0, 0, 0, 0, 0, 0, 0, 0, 0, 0]\<rparr> \<and>
   (\<exists>out. imgproc_squash
       \<lparr>width = 4, height = 4, data = [0, 1, 2, 3, 4, 5, 6, 7, 8, 9, 10, 11, 12, 13, 14, 15]\<rparr>
       \<lparr>width = 2, height = 2, data = [0, 0, 0, 0]\<rparr> 2 2 = Some out \<and>
      width out = 2 \<and> height out = 2 \<and>
      px out 0 0 = 0 \<and> px out 0 1 = 2 \<and> px out 1 0 = 8 \<and> px out 1 1 = 10) \<and>
   imgproc_squash
       \<lparr>width = 4, height = 4, data = [0, 1, 2, 3, 4, 5, 6, 7, 8, 9, 10, 11, 12, 13, 14, 15]\<rparr>
       \<lparr>width = 4, height = 4, data = [0, 0, 0, 0, 0, 0, 0, 0, 0, 0, 0, 0, 0, 0, 0, 0]\<rparr> 1 1
     = Some \<lparr>width = 4, height = 4,
              data = [0, 1, 2, 3, 4, 5, 6, 7, 8, 9, 10, 11, 12, 13, 14, 15]\<rparr>"
proof -
  let ?src = "\<lparr>width = 4, height = 4,
    data = [0, 1, 2, 3, 4, 5, 6, 7, 8, 9, 10, 11, 12, 13, 14, 15 :: uint32_t]\<rparr>"
  let ?dst = "\<lparr>width = 2, height = 2, data = [0, 0, 0, 0 :: uint32_t]\<rparr>"
  let ?dst4 = "\<lparr>width = 4, height = 4,
    data = [0, 0, 0, 0, 0, 0, 0, 0, 0, 0, 0, 0, 0, 0, 0, 0 :: uint32_t]\<rparr>"
  have wf: "wf_image ?src" "wf_image ?dst" "wf_image ?dst4"
    by (simp_all add: wf_image_def INT_MAX_def)
  have inb: "\<forall>i j. 0 \<le> i \<and> i < 2 \<and> 0 \<le> j \<and> j < 2 \<longrightarrow> i * 2 < (4 :: int) \<and> j * 2 < (4 :: int)"
    by simp
  have "\<exists>out. imgproc_squash ?src ?dst 2 2 = Some out \<and>
        width out = 2 \<and> height out = 2 \<and>
        (\<forall>i j. 0 \<le> i \<and> i < 2 \<and> 0 \<le> j \<and> j < 2 \<longrightarrow> px out i j = px ?src (i * 2) (j * 2))"
    using squash_samples [of ?src ?dst 2 2] wf inb by simp
  then obtain out where out: "imgproc_squash ?src ?dst 2 2 = Some out"
    "width out = 2" "height out = 2"
    "\<And>i j. 0 \<le> i \<and> i < 2 \<and> 0 \<le> j \<and> j < 2 \<Longrightarrow> px out i j = px ?src (i * 2) (j * 2)"
    by blast
  have "px out 0 0 = 0" "px out 0 1 = 2" "px out 1 0 = 8" "px out 1 1 = 10"
    using out(4) [of 0 0] out(4) [of 0 1] out(4) [of 1 0] out(4) [of 1 1]
    by (simp_all add: px_def)
  moreover have "imgproc_squash ?src ?dst4 1 1 = Some ?src"
    using squash_samples [of ?src ?dst4 2 2] wf by simp
  ultimately show ?thesis using wf out(1,2,3) by blast
qed

section \<open>Properties of the pixel averager\<close>

text \<open>
  Claim C9. Accumulating from a position outside the image leaves the averager
  unchanged, all four sums and the count, and is not an error. Accumulating from a
  position inside the image adds the four channels of that pixel to the sums and
  increments the count by one (in the unsigned 32-bit arithmetic of the fields).
\<close>

theorem pa_update_from_img_bounds:
  "(row < 0 \<or> row \<ge> height img \<or> col < 0 \<or> col \<ge> width img \<longrightarrow>
      pa_update_from_img img row col pa = Some pa) \<and>
   (wf_image img \<and> 0 \<le> row \<and> row < height img \<and> 0 \<le> col \<and> col < width img \<longrightarrow>
      pa_update_from_img img row col pa =
        Some \<lparr>r = r pa + getRed (px img row col),
              g = g pa + getGreen (px img row col),
              b = b pa + getBlue (px img row col),
              a = a pa + getAlpha (px img row col),
              count = count pa + 1\<rparr>)"
proof (intro conjI impI)
  assume "row < 0 \<or> row \<ge> height img \<or> col < 0 \<or> col \<ge> width img"
  then show "pa_update_from_img img row col pa = Some pa"
    by (simp add: pa_update_from_img_def)
next
  assume h: "wf_image img \<and> 0 \<le> row \<and> row < height img \<and> 0 \<le> col \<and> col < width img"
  then have idx: "c_mul row (width img) = Some (row * width img)"
    "c_add (row * width img) col = Some (row * width img + col)"
    "load (data img) (row * width img + col) = Some (px img row col)"
    using pixel_index(1,2,5) [of img row col] by simp_all
  show "pa_update_from_img img row col pa =
        Some \<lparr>r = r pa + getRed (px img row col),
              g = g pa + getGreen (px img row col),
              b = b pa + getBlue (px img row col),
              a = a pa + getAlpha (px img row col),
              count = count pa + 1\<rparr>"
    using h by (simp add: pa_update_from_img_def idx pa_update_def)
qed

theorem pa_update_from_img_bounds_witness:
  "wf_image \<lparr>width = 2, height = 1, data = [0x01020304, 0x0A0B0C0D]\<rparr> \<and>
   pa_update_from_img \<lparr>width = 2, height = 1, data = [0x01020304, 0x0A0B0C0D]\<rparr> 0 2
       \<lparr>r = 1, g = 2, b = 3, a = 4, count = 1\<rparr> = Some \<lparr>r = 1, g = 2, b = 3, a = 4, count = 1\<rparr> \<and>
   pa_update_from_img \<lparr>width = 2, height = 1, data = [0x01020304, 0x0A0B0C0D]\<rparr> (- 1) 0
       \<lparr>r = 1, g = 2, b = 3, a = 4, count = 1\<rparr> = Some \<lparr>r = 1, g = 2, b = 3, a = 4, count = 1\<rparr> \<and>
   pa_update_from_img \<lparr>width = 2, height = 1, data = [0x01020304, 0x0A0B0C0D]\<rparr> 0 1
       \<lparr>r = 1, g = 2, b = 3, a = 4, count = 1\<rparr>
     = Some \<lparr>r = 0x0B, g = 0x0D, b = 0x0F, a = 0x11, count = 2\<rparr>"
proof -
  let ?img = "\<lparr>width = 2, height = 1, data = [0x01020304, 0x0A0B0C0D :: uint32_t]\<rparr>"
  let ?pa = "\<lparr>r = 1, g = 2, b = 3, a = 4, count = 1 :: uint32_t\<rparr>"
  have wf: "wf_image ?img"
    by (simp add: wf_image_def INT_MAX_def)
  have ch: "getRed 0x0A0B0C0D = 0x0A" "getGreen 0x0A0B0C0D = 0x0B" "getBlue 0x0A0B0C0D = 0x0C"
    "getAlpha 0x0A0B0C0D = 0x0D"
    by (simp_all add: getBlue_def getRed_def getGreen_def getAlpha_def)
  have 1: "pa_update_from_img ?img 0 2 ?pa = Some ?pa"
    using pa_update_from_img_bounds [of 0 ?img 2 ?pa] by simp
  have 2: "pa_update_from_img ?img (- 1) 0 ?pa = Some ?pa"
    using pa_update_from_img_bounds [of "- 1" ?img 0 ?pa] by simp
  have 3: "pa_update_from_img ?img 0 1 ?pa
     = Some \<lparr>r = 0x0B, g = 0x0D, b = 0x0F, a = 0x11, count = 2\<rparr>"
    using pa_update_from_img_bounds [of 0 ?img 1 ?pa] wf by (simp add: px_def ch)
  show ?thesis using wf 1 2 3 by blast
qed

section \<open>Blur\<close>

lemma blur_window_subset:
  "blur_window img d i j \<subseteq> {0..<height img} \<times> {0..<width img}"
  by (auto simp add: blur_window_def)

lemma blur_seen_subset: "blur_seen img d i j k l \<subseteq> blur_window img d i j"
  by (auto simp add: blur_seen_def)

lemma finite_blur_window: "finite (blur_window img d i j)"
  by (rule finite_subset [OF blur_window_subset]) simp

lemma finite_blur_seen: "finite (blur_seen img d i j k l)"
  by (rule finite_subset [OF blur_seen_subset finite_blur_window])

lemma card_blur_window_le:
  assumes "wf_image img" "S \<subseteq> blur_window img d i j"
  shows "int (card S) \<le> INT_MAX"
proof -
  note w = wf_imageD [OF assms(1)]
  have "card S \<le> card ({0..<height img} \<times> {0..<width img})"
  proof (rule card_mono)
    show "finite ({0..<height img} \<times> {0..<width img})" by simp
    show "S \<subseteq> {0..<height img} \<times> {0..<width img}"
      using assms(2) blur_window_subset [of img d i j] by (rule subset_trans)
  qed
  also have "\<dots> = nat (height img) * nat (width img)"
    by (simp add: card_cartesian_product)
  finally have "card S \<le> nat (height img) * nat (width img)" .
  then have "int (card S) \<le> int (nat (height img) * nat (width img))"
    by (rule iffD2 [OF of_nat_le_iff])
  also have "\<dots> = height img * width img" using w by simp
  finally show ?thesis using w by (simp add: mult.commute)
qed

lemma channel_sum_empty [simp]: "channel_sum ch img {} = 0"
  by (simp add: channel_sum_def)

lemma channel_sum_insert:
  assumes "finite S" "(x, y) \<notin> S"
  shows "channel_sum ch img (insert (x, y) S) = channel_sum ch img S + uint (ch (px img x y))"
  using assms by (simp add: channel_sum_def)

lemma add_assign_u_sum:
  "add_assign_u (sint (word_of_int s :: uint32_t)) v = sint (word_of_int (s + uint v) :: uint32_t)"
  by (simp add: add_assign_u_def)

lemma blur_sums_empty: "blur_sums img {} = (0, 0, 0, 0)"
  by (simp add: blur_sums_def)

lemma blur_sums_insert:
  assumes "finite S" "(x, y) \<notin> S"
  shows "blur_sums img (insert (x, y) S) =
    (case blur_sums img S of (red, green, blue, n) \<Rightarrow>
       (add_assign_u red (getRed (px img x y)), add_assign_u green (getGreen (px img x y)),
        add_assign_u blue (getBlue (px img x y)), n + 1))"
  using assms by (simp add: blur_sums_def channel_sum_insert add_assign_u_sum)

lemma blur_seen_step:
  assumes "- d \<le> l" "l \<le> d" "- d \<le> k" "k \<le> d"
  shows "blur_seen img d i j k (l + 1) =
    (if 0 \<le> i + k \<and> i + k < height img \<and> 0 \<le> j + l \<and> j + l < width img
     then insert (i + k, j + l) (blur_seen img d i j k l) else blur_seen img d i j k l)"
  using assms by (auto simp add: blur_seen_def blur_window_def)

lemma blur_seen_notin: "(i + k, j + l) \<notin> blur_seen img d i j k l"
  by (simp add: blur_seen_def)

lemma blur_seen_row:
  assumes "0 \<le> d"
  shows "blur_seen img d i j k (d + 1) = blur_seen img d i j (k + 1) (- d)"
  using assms by (auto simp add: blur_seen_def blur_window_def)

lemma blur_seen_start: "blur_seen img d i j (- d) (- d) = {}"
  by (auto simp add: blur_seen_def blur_window_def)

lemma blur_seen_end: "blur_seen img d i j (d + 1) (- d) = blur_window img d i j"
  by (auto simp add: blur_seen_def blur_window_def)


lemma c_neg_Some: "0 \<le> d \<Longrightarrow> d \<le> INT_MAX \<Longrightarrow> c_neg d = Some (- d)"
  by (simp add: c_neg_def c_int_def INT_MIN_def INT_MAX_def)

lemma blur_accumulate_result:
  assumes wf: "wf_image img" and ij: "0 \<le> i" "i < height img" "0 \<le> j" "j < width img"
    and d: "0 \<le> d" "d < INT_MAX" "height img - 1 + d \<le> INT_MAX" "width img - 1 + d \<le> INT_MAX"
  shows "blur_accumulate img d i j = Some (blur_sums img (blur_window img d i j))"
proof -
  let ?visit = "\<lambda>k l. \<lambda>(red, green, blue, total).
                    do { currX \<leftarrow> c_add i k;
                         currY \<leftarrow> c_add j l;
                         if currX \<ge> 0 \<and> currX < height img \<and> currY \<ge> 0 \<and> currY < width img
                         then do { t \<leftarrow> c_mul currX (width img);
                                   idx \<leftarrow> c_add t currY;
                                   pixel \<leftarrow> load (data img) idx;
                                   total' \<leftarrow> c_add total 1;
                                   Some (add_assign_u red (drop_bit 24 pixel AND 0xFF),
                                         add_assign_u green (drop_bit 16 pixel AND 0xFF),
                                         add_assign_u blue (drop_bit 8 pixel AND 0xFF),
                                         total') }
                         else Some (red, green, blue, total) }"
  let ?seen = "blur_seen img d i j"
  have neg: "c_neg d = Some (- d)" using d by (intro c_neg_Some) simp_all
  have min: "INT_MIN \<le> - d" using d by (simp add: INT_MIN_def INT_MAX_def)
  have visit: "?visit k l (blur_sums img (?seen k l)) = Some (blur_sums img (?seen k (l + 1)))"
    if kl: "- d \<le> k" "k \<le> d" "- d \<le> l" "l \<le> d" for k l
  proof -
    obtain red green blue where bs:
      "blur_sums img (?seen k l) = (red, green, blue, int (card (?seen k l)))"
      by (simp add: blur_sums_def)
    have x: "c_add i k = Some (i + k)"
      using kl ij d min by (intro c_add_Some) linarith+
    have y: "c_add j l = Some (j + l)"
      using kl ij d min by (intro c_add_Some) linarith+
    show ?thesis
    proof (cases "0 \<le> i + k \<and> i + k < height img \<and> 0 \<le> j + l \<and> j + l < width img")
      case True
      then have inb: "0 \<le> i + k" "i + k < height img" "0 \<le> j + l" "j + l < width img"
        by simp_all
      note idx = pixel_index(1,2,5) [OF wf inb]
      have step: "?seen k (l + 1) = insert (i + k, j + l) (?seen k l)"
        by (subst blur_seen_step [OF kl(3,4,1,2)]) (rule if_P [OF True])
      have "int (card (?seen k (l + 1))) \<le> INT_MAX"
        by (rule card_blur_window_le [OF wf blur_seen_subset])
      moreover have "card (?seen k (l + 1)) = card (?seen k l) + 1"
        unfolding step using finite_blur_seen blur_seen_notin by (simp add: card_insert_if)
      ultimately have tot: "c_add (int (card (?seen k l))) 1 = Some (int (card (?seen k l)) + 1)"
        using INT_MIN_neg by (intro c_add_Some) linarith+
      have "blur_sums img (?seen k (l + 1)) =
        (add_assign_u red (getRed (px img (i + k) (j + l))),
         add_assign_u green (getGreen (px img (i + k) (j + l))),
         add_assign_u blue (getBlue (px img (i + k) (j + l))),
         int (card (?seen k l)) + 1)"
        unfolding step
        by (simp add: blur_sums_insert [OF finite_blur_seen blur_seen_notin] bs)
      then show ?thesis
        by (simp add: bs x y if_P [OF True] idx tot getRed_def getGreen_def getBlue_def)
    next
      case False
      have "?seen k (l + 1) = ?seen k l"
        by (subst blur_seen_step [OF kl(3,4,1,2)]) (rule if_not_P [OF False])
      then show ?thesis by (simp add: bs x y if_not_P [OF False])
    qed
  qed
  have row: "do { l0 \<leftarrow> c_neg d; for_le l0 d (?visit k) (blur_sums img (?seen k (- d))) }
      = Some (blur_sums img (?seen (k + 1) (- d)))"
    if k: "- d \<le> k" "k \<le> d" for k
  proof -
    have "\<exists>s'. for_le (- d) d (?visit k) (blur_sums img (?seen k (- d))) = Some s' \<and>
        s' = blur_sums img (?seen k (d + 1))"
      by (rule for_le_total [where lo = "- d" and I = "\<lambda>l s. s = blur_sums img (?seen k l)"])
         (use visit k min d in auto)
    then have "for_le (- d) d (?visit k) (blur_sums img (?seen k (- d)))
        = Some (blur_sums img (?seen k (d + 1)))"
      by blast
    then show ?thesis
      by (simp only: neg Option.bind.simps blur_seen_row [OF d(1)])
  qed
  have "\<exists>s'. for_le (- d) d (\<lambda>k acc. do { l0 \<leftarrow> c_neg d; for_le l0 d (?visit k) acc })
      (blur_sums img (?seen (- d) (- d))) = Some s' \<and> s' = blur_sums img (?seen (d + 1) (- d))"
    by (rule for_le_total [where lo = "- d" and I = "\<lambda>k s. s = blur_sums img (?seen k (- d))"])
       (use row min d in auto)
  then have "for_le (- d) d (\<lambda>k acc. do { l0 \<leftarrow> c_neg d; for_le l0 d (?visit k) acc })
      (blur_sums img (?seen (- d) (- d))) = Some (blur_sums img (?seen (d + 1) (- d)))"
    by blast
  then have "for_le (- d) d (\<lambda>k acc. do { l0 \<leftarrow> c_neg d; for_le l0 d (?visit k) acc })
      (0, 0, 0, 0) = Some (blur_sums img (blur_window img d i j))"
    by (simp only: blur_seen_start blur_seen_end blur_sums_empty)
  then show ?thesis
    by (simp only: blur_accumulate_def Let_def neg Option.bind.simps)
qed

lemma sdiv_range:
  fixes x t :: int
  assumes "INT_MIN \<le> x" "x \<le> INT_MAX" "1 \<le> t"
  shows "INT_MIN \<le> x sdiv t" "x sdiv t \<le> INT_MAX"
proof -
  have t: "sgn t = 1" "\<bar>t\<bar> = t" using assms(3) by simp_all
  have "\<bar>x\<bar> div t \<le> \<bar>x\<bar> div 1"
    using assms(3) by (intro zdiv_mono2) simp_all
  then have q: "0 \<le> \<bar>x\<bar> div t" "\<bar>x\<bar> div t \<le> \<bar>x\<bar>"
    using assms(3) by (simp_all add: pos_imp_zdiv_nonneg_iff)
  have "x sdiv t = sgn x * (\<bar>x\<bar> div t)"
    by (simp add: signed_divide_int_def t)
  moreover have "INT_MIN \<le> sgn x * (\<bar>x\<bar> div t) \<and> sgn x * (\<bar>x\<bar> div t) \<le> INT_MAX"
  proof (cases "0 \<le> x")
    case True
    then show ?thesis using q assms INT_MIN_neg by (cases "x = 0") (auto simp add: sgn_if)
  next
    case False
    then show ?thesis using q assms INT_MAX_ge_0 by (auto simp add: sgn_if)
  qed
  ultimately show "INT_MIN \<le> x sdiv t" "x sdiv t \<le> INT_MAX" by simp_all
qed

lemma c_div_Some:
  assumes "INT_MIN \<le> x" "x \<le> INT_MAX" "1 \<le> t"
  shows "c_div x t = Some (x sdiv t)"
  using sdiv_range [OF assms] assms(3) by (simp add: c_div_def c_int_def)

lemma sint_int_range: "INT_MIN \<le> sint (w :: uint32_t)" "sint (w :: uint32_t) \<le> INT_MAX"
  using sint_ge [of w] sint_lt [of w] by (simp_all add: INT_MIN_def INT_MAX_def)

lemma center_in_window:
  assumes "0 \<le> i" "i < height img" "0 \<le> j" "j < width img" "0 \<le> d"
  shows "(i, j) \<in> blur_window img d i j"
  using assms by (simp add: blur_window_def)

lemma card_blur_window_pos:
  assumes "0 \<le> i" "i < height img" "0 \<le> j" "j < width img" "0 \<le> d"
  shows "1 \<le> int (card (blur_window img d i j))"
proof -
  have "card (blur_window img d i j) \<noteq> 0"
    using center_in_window [OF assms] finite_blur_window [of img d i j] by auto
  then show ?thesis by linarith
qed

lemma blur_pixels:
  assumes wf: "wf_image input_img" "wf_image output_img"
    and dims: "width output_img = width input_img" "height output_img = height input_img"
    and d: "0 \<le> d" "d < INT_MAX" "height input_img - 1 + d \<le> INT_MAX"
      "width input_img - 1 + d \<le> INT_MAX"
  shows "\<exists>out. imgproc_blur input_img output_img d = Some out \<and>
    width out = width input_img \<and> height out = height input_img \<and>
    length (data out) = length (data input_img) \<and>
    (\<forall>i j. 0 \<le> i \<and> i < height input_img \<and> 0 \<le> j \<and> j < width input_img \<longrightarrow>
       px out i j = blur_result input_img d i j)"
proof -
  note wi = wf_imageD [OF wf(1)] and wo = wf_imageD [OF wf(2)]
  have len: "length (data output_img) = length (data input_img)"
    using wf dims by (simp add: wf_image_def)
  let ?body = "\<lambda>i j out.
               do { (red, green, blue, total) \<leftarrow> blur_accumulate input_img d i j;
                    t \<leftarrow> c_mul i (width input_img);
                    pos \<leftarrow> c_add t j;
                    pixel \<leftarrow> load (data input_img) pos;
                    let alpha = pixel AND 0xFF;
                    rd \<leftarrow> c_div red total;
                    gn \<leftarrow> c_div green total;
                    bl \<leftarrow> c_div blue total;
                    store out pos (push_bit 24 (word_of_int rd) OR push_bit 16 (word_of_int gn)
                                   OR push_bit 8 (word_of_int bl) OR alpha) }"
  have body: "?body i j out = Some (out[nat (i * width input_img + j) :=
      blur_result input_img d i j])"
    if ij: "0 \<le> i" "i < height input_img" "0 \<le> j" "j < width input_img"
      and lo: "length out = length (data output_img)" for i j out
  proof -
    obtain red green blue where bs: "blur_sums input_img (blur_window input_img d i j) =
        (red, green, blue, int (card (blur_window input_img d i j)))"
      and rgb: "red = sint (word_of_int (channel_sum getRed input_img
                    (blur_window input_img d i j)) :: uint32_t)"
        "green = sint (word_of_int (channel_sum getGreen input_img
                    (blur_window input_img d i j)) :: uint32_t)"
        "blue = sint (word_of_int (channel_sum getBlue input_img
                    (blur_window input_img d i j)) :: uint32_t)"
      by (simp add: blur_sums_def)
    have acc: "blur_accumulate input_img d i j =
        Some (red, green, blue, int (card (blur_window input_img d i j)))"
      using blur_accumulate_result [OF wf(1) ij d] bs by simp
    note n = card_blur_window_pos [OF ij d(1)]
    have dv: "c_div red (int (card (blur_window input_img d i j))) =
        Some (red sdiv int (card (blur_window input_img d i j)))"
      "c_div green (int (card (blur_window input_img d i j))) =
        Some (green sdiv int (card (blur_window input_img d i j)))"
      "c_div blue (int (card (blur_window input_img d i j))) =
        Some (blue sdiv int (card (blur_window input_img d i j)))"
      unfolding rgb by (intro c_div_Some sint_int_range n)+
    note idx = pixel_index(1,2,5) [OF wf(1) ij]
    have "height input_img * width input_img \<le> int (length out)"
      using lo len wi by simp
    moreover have "height input_img * width input_img \<le> INT_MAX"
      using wi by (simp add: mult.commute)
    ultimately have st: "store out (i * width input_img + j) v =
        Some (out[nat (i * width input_img + j) := v])" for v
      by (rule store_index(3) [OF ij])
    show ?thesis
      by (simp add: acc idx dv st blur_result_def bs createPixel_def getAlpha_def)
  qed
  have "\<exists>out. for_lt 0 (height input_img) (\<lambda>i. for_lt 0 (width input_img) (?body i))
           (data output_img) = Some out \<and> length out = length (data output_img) \<and>
           (\<forall>i j. 0 \<le> i \<and> i < height input_img \<and> 0 \<le> j \<and> j < width input_img \<longrightarrow>
              out ! nat (i * width input_img + j) = blur_result input_img d i j)"
    by (rule for_lt_fill2 [OF body]) (use wi len in simp_all)
  then obtain out where out:
    "for_lt 0 (height input_img) (\<lambda>i. for_lt 0 (width input_img) (?body i))
           (data output_img) = Some out" "length out = length (data output_img)"
    "\<forall>i j. 0 \<le> i \<and> i < height input_img \<and> 0 \<le> j \<and> j < width input_img \<longrightarrow>
              out ! nat (i * width input_img + j) = blur_result input_img d i j"
    by blast
  have "imgproc_blur input_img output_img d = Some (output_img\<lparr>data := out\<rparr>)"
    using out(1) by (simp add: imgproc_blur_def Let_def)
  then show ?thesis using out(2,3) dims len by simp
qed

lemma getAlpha_createPixel: "getAlpha (createPixel x y z w) = getAlpha w"
  by (rule bit_word_eqI) (auto simp add: bit_getAlpha bit_createPixel)

lemma getAlpha_idem: "getAlpha (getAlpha p) = getAlpha p"
  by (rule bit_word_eqI) (auto simp add: bit_getAlpha)

lemma blur_result_alpha: "getAlpha (blur_result img d i j) = getAlpha (px img i j)"
  by (simp add: blur_result_def blur_sums_def getAlpha_createPixel getAlpha_idem)

lemma uint_channel_le:
  "uint (getRed p) \<le> 255" "uint (getGreen p) \<le> 255" "uint (getBlue p) \<le> 255"
  using channel_le [of p] by (simp_all add: word_le_def)

lemma channel_sum_bounds:
  assumes "\<And>p. uint (ch p) \<le> 255"
  shows "0 \<le> channel_sum ch img S" "channel_sum ch img S \<le> int (card S) * 255"
proof -
  show "0 \<le> channel_sum ch img S"
    unfolding channel_sum_def by (rule sum_nonneg) auto
  have "(\<Sum>q\<in>S. uint (ch (px img (fst q) (snd q)))) \<le> of_nat (card S) * 255"
    by (rule sum_bounded_above) (rule assms)
  then show "channel_sum ch img S \<le> int (card S) * 255"
    by (simp add: channel_sum_def case_prod_beta)
qed

lemma average_channel:
  fixes s n :: int
  assumes "0 \<le> s" "s \<le> INT_MAX" "s \<le> n * 255" "1 \<le> n"
  shows "sint (word_of_int s :: uint32_t) sdiv n = s div n"
    "word_of_int (s div n) \<le> (255 :: uint32_t)"
    "uint (word_of_int (s div n) :: uint32_t) = s div n"
proof -
  have "sint (word_of_int s :: uint32_t) = s"
    using assms(1,2) by (simp add: sint_sbintrunc' signed_take_bit_int_eq_self INT_MAX_def)
  moreover have "s sdiv n = s div n"
    using assms(1,4) by (simp add: signed_divide_int_def sgn_if)
  ultimately show "sint (word_of_int s :: uint32_t) sdiv n = s div n" by simp
  have "s div n \<le> (n * 255) div n"
    using assms(3,4) by (intro zdiv_mono1) simp_all
  then have le: "s div n \<le> 255" using assms(4) by simp
  have ge: "0 \<le> s div n" using assms(1,4) by (simp add: pos_imp_zdiv_nonneg_iff)
  show u: "uint (word_of_int (s div n) :: uint32_t) = s div n"
    using le ge by (simp add: uint_word_of_int_eq take_bit_int_eq_self)
  show "word_of_int (s div n) \<le> (255 :: uint32_t)"
    using le by (simp add: word_le_def u)
qed

lemma createPixel_getBlue:
  assumes "z \<le> 255" "w \<le> 255"
  shows "getBlue (createPixel x y z w) = z"
proof -
  note cb = channel_bit [OF assms(1)] channel_bit [OF assms(2)]
  show ?thesis
    by (rule bit_word_eqI) (use cb in \<open>fastforce simp add: bit_getBlue bit_createPixel\<close>)
qed

lemma createPixel_getGreen:
  assumes "y \<le> 255" "z \<le> 255" "w \<le> 255"
  shows "getGreen (createPixel x y z w) = y"
proof -
  note cb = channel_bit [OF assms(1)] channel_bit [OF assms(2)] channel_bit [OF assms(3)]
  show ?thesis
    by (rule bit_word_eqI) (use cb in \<open>fastforce simp add: bit_getGreen bit_createPixel\<close>)
qed

text \<open>
  The stored pixel is \<open>(r << 24) | (g << 16) | (b << 8) | alpha\<close> with unmasked
  \<open>r\<close>, \<open>g\<close>, \<open>b\<close>: its blue channel depends on the blue accumulator only, its green
  channel on the green and the blue one, its red channel on all three.
\<close>

lemma blur_result_channels:
  assumes ij: "0 \<le> i" "i < height img" "0 \<le> j" "j < width img" and d: "0 \<le> d"
  shows "channel_sum getBlue img (blur_window img d i j) \<le> INT_MAX \<Longrightarrow>
      uint (getBlue (blur_result img d i j)) =
        channel_sum getBlue img (blur_window img d i j) div int (card (blur_window img d i j))"
    "channel_sum getGreen img (blur_window img d i j) \<le> INT_MAX \<Longrightarrow>
     channel_sum getBlue img (blur_window img d i j) \<le> INT_MAX \<Longrightarrow>
      uint (getGreen (blur_result img d i j)) =
        channel_sum getGreen img (blur_window img d i j) div int (card (blur_window img d i j))"
    "channel_sum getRed img (blur_window img d i j) \<le> INT_MAX \<Longrightarrow>
     channel_sum getGreen img (blur_window img d i j) \<le> INT_MAX \<Longrightarrow>
     channel_sum getBlue img (blur_window img d i j) \<le> INT_MAX \<Longrightarrow>
      uint (getRed (blur_result img d i j)) =
        channel_sum getRed img (blur_window img d i j) div int (card (blur_window img d i j))"
proof -
  note n = card_blur_window_pos [OF ij d]
  note al = channel_le(4) [of "px img i j"]
  {
    assume fit: "channel_sum getBlue img (blur_window img d i j) \<le> INT_MAX"
    note ab = average_channel [OF channel_sum_bounds(1) [OF uint_channel_le(3)] fit
        channel_sum_bounds(2) [OF uint_channel_le(3)] n]
    show "uint (getBlue (blur_result img d i j)) =
        channel_sum getBlue img (blur_window img d i j) div int (card (blur_window img d i j))"
      by (simp add: blur_result_def blur_sums_def ab(1) createPixel_getBlue [OF ab(2) al] ab(3))
  }
  {
    assume fit: "channel_sum getGreen img (blur_window img d i j) \<le> INT_MAX"
      "channel_sum getBlue img (blur_window img d i j) \<le> INT_MAX"
    note ag = average_channel [OF channel_sum_bounds(1) [OF uint_channel_le(2)] fit(1)
        channel_sum_bounds(2) [OF uint_channel_le(2)] n]
    note ab = average_channel [OF channel_sum_bounds(1) [OF uint_channel_le(3)] fit(2)
        channel_sum_bounds(2) [OF uint_channel_le(3)] n]
    show "uint (getGreen (blur_result img d i j)) =
        channel_sum getGreen img (blur_window img d i j) div int (card (blur_window img d i j))"
      by (simp add: blur_result_def blur_sums_def ag(1) ab(1)
          createPixel_getGreen [OF ag(2) ab(2) al] ag(3))
  }
  {
    assume fit: "channel_sum getRed img (blur_window img d i j) \<le> INT_MAX"
      "channel_sum getGreen img (blur_window img d i j) \<le> INT_MAX"
      "channel_sum getBlue img (blur_window img d i j) \<le> INT_MAX"
    note ar = average_channel [OF channel_sum_bounds(1) [OF uint_channel_le(1)] fit(1)
        channel_sum_bounds(2) [OF uint_channel_le(1)] n]
    note ag = average_channel [OF channel_sum_bounds(1) [OF uint_channel_le(2)] fit(2)
        channel_sum_bounds(2) [OF uint_channel_le(2)] n]
    note ab = average_channel [OF channel_sum_bounds(1) [OF uint_channel_le(3)] fit(3)
        channel_sum_bounds(2) [OF uint_channel_le(3)] n]
    show "uint (getRed (blur_result img d i j)) =
        channel_sum getRed img (blur_window img d i j) div int (card (blur_window img d i j))"
      by (simp add: blur_result_def blur_sums_def ar(1) ag(1) ab(1)
          createPixel_getters(1) [OF ar(2) ag(2) ab(2) al] ar(3))
  }
qed

lemma blur_accumulate_overflow: "blur_accumulate img INT_MAX i j = None"
proof -
  have "c_neg INT_MAX = Some (- INT_MAX)"
    by (simp add: c_neg_def c_int_def INT_MAX_def INT_MIN_def)
  moreover have "- INT_MAX \<le> INT_MAX" by (simp add: INT_MAX_def)
  ultimately show ?thesis
    by (simp add: blur_accumulate_def Let_def for_le_overflow)
qed

text \<open>
  The loop counters of the window are C ints: with \<open>blur_dist = INT_MAX\<close> the
  increment of the counter at the end of the window overflows, so the call has no
  defined result.
\<close>

lemma blur_dist_int_max_undefined:
  "wf_image \<lparr>width = 1, height = 1, data = [0x11223344]\<rparr> \<and>
   wf_image \<lparr>width = 1, height = 1, data = [0]\<rparr> \<and>
   (0 :: int) \<le> 2147483647 \<and>
   imgproc_blur \<lparr>width = 1, height = 1, data = [0x11223344]\<rparr>
                \<lparr>width = 1, height = 1, data = [0]\<rparr> 2147483647 = None"
proof -
  have "blur_accumulate \<lparr>width = 1, height = 1, data = [0x11223344]\<rparr> 2147483647 0 0 = None"
    using blur_accumulate_overflow [of "\<lparr>width = 1, height = 1, data = [0x11223344]\<rparr>" 0 0]
    by (simp add: INT_MAX_def)
  then have "imgproc_blur \<lparr>width = 1, height = 1, data = [0x11223344]\<rparr>
                \<lparr>width = 1, height = 1, data = [0]\<rparr> 2147483647 = None"
    by (simp add: imgproc_blur_def Let_def for_lt.simps [of 0])
  then show ?thesis by (simp add: wf_image_def INT_MAX_def)
qed

text \<open>
  Where the code computes the averages. Let the destination have the dimensions of the
  input and let the loop counters stay in range (\<open>0 \<le> blur_dist < INT_MAX\<close>,
  \<open>height - 1 + blur_dist \<le> INT_MAX\<close>, \<open>width - 1 + blur_dist \<le> INT_MAX\<close>). Then blur
  returns and the alpha of every output pixel is the alpha of the input pixel at the
  same position. The blue channel of an output pixel is the truncated average of the
  blue channel over the in-bounds pixels of its window when the blue sum fits in a C
  int; the green channel when the green and the blue sum fit; the red channel when all
  three sums fit.
\<close>

lemma blur_averages_in_range:
  assumes "wf_image input_img" "wf_image output_img"
    "width output_img = width input_img" "height output_img = height input_img"
    "0 \<le> blur_dist" "blur_dist < INT_MAX"
    "height input_img - 1 + blur_dist \<le> INT_MAX" "width input_img - 1 + blur_dist \<le> INT_MAX"
  shows "\<exists>out. imgproc_blur input_img output_img blur_dist = Some out \<and>
    width out = width input_img \<and> height out = height input_img \<and>
    (\<forall>row col. 0 \<le> row \<and> row < height input_img \<and> 0 \<le> col \<and> col < width input_img \<longrightarrow>
       getAlpha (px out row col) = getAlpha (px input_img row col) \<and>
       (channel_sum getBlue input_img (blur_window input_img blur_dist row col) \<le> INT_MAX \<longrightarrow>
          uint (getBlue (px out row col)) =
            channel_sum getBlue input_img (blur_window input_img blur_dist row col)
              div int (card (blur_window input_img blur_dist row col))) \<and>
       (channel_sum getGreen input_img (blur_window input_img blur_dist row col) \<le> INT_MAX \<and>
        channel_sum getBlue input_img (blur_window input_img blur_dist row col) \<le> INT_MAX \<longrightarrow>
          uint (getGreen (px out row col)) =
            channel_sum getGreen input_img (blur_window input_img blur_dist row col)
              div int (card (blur_window input_img blur_dist row col))) \<and>
       (channel_sum getRed input_img (blur_window input_img blur_dist row col) \<le> INT_MAX \<and>
        channel_sum getGreen input_img (blur_window input_img blur_dist row col) \<le> INT_MAX \<and>
        channel_sum getBlue input_img (blur_window input_img blur_dist row col) \<le> INT_MAX \<longrightarrow>
          uint (getRed (px out row col)) =
            channel_sum getRed input_img (blur_window input_img blur_dist row col)
              div int (card (blur_window input_img blur_dist row col))))"
proof -
  obtain out where out: "imgproc_blur input_img output_img blur_dist = Some out"
    "width out = width input_img" "height out = height input_img"
    and pix: "\<And>i j. 0 \<le> i \<and> i < height input_img \<and> 0 \<le> j \<and> j < width input_img \<Longrightarrow>
       px out i j = blur_result input_img blur_dist i j"
    using blur_pixels [OF assms] by blast
  show ?thesis
  proof (intro exI [of _ out] conjI allI impI out)
    fix row col
    assume rc: "0 \<le> row \<and> row < height input_img \<and> 0 \<le> col \<and> col < width input_img"
    then have ij: "0 \<le> row" "row < height input_img" "0 \<le> col" "col < width input_img"
      by simp_all
    note ch = blur_result_channels [OF ij assms(5)]
    show "getAlpha (px out row col) = getAlpha (px input_img row col)"
      by (simp add: pix [OF rc] blur_result_alpha)
    show "uint (getBlue (px out row col)) =
            channel_sum getBlue input_img (blur_window input_img blur_dist row col)
              div int (card (blur_window input_img blur_dist row col))"
      if "channel_sum getBlue input_img (blur_window input_img blur_dist row col) \<le> INT_MAX"
      using ch(1) [OF that] by (simp only: pix [OF rc])
    show "uint (getGreen (px out row col)) =
            channel_sum getGreen input_img (blur_window input_img blur_dist row col)
              div int (card (blur_window input_img blur_dist row col))"
      if "channel_sum getGreen input_img (blur_window input_img blur_dist row col) \<le> INT_MAX \<and>
        channel_sum getBlue input_img (blur_window input_img blur_dist row col) \<le> INT_MAX"
      using ch(2) that by (simp only: pix [OF rc])
    show "uint (getRed (px out row col)) =
            channel_sum getRed input_img (blur_window input_img blur_dist row col)
              div int (card (blur_window input_img blur_dist row col))"
      if "channel_sum getRed input_img (blur_window input_img blur_dist row col) \<le> INT_MAX \<and>
        channel_sum getGreen input_img (blur_window input_img blur_dist row col) \<le> INT_MAX \<and>
        channel_sum getBlue input_img (blur_window input_img blur_dist row col) \<le> INT_MAX"
      using ch(3) that by (simp only: pix [OF rc])
  qed
qed

lemma blur_averages_in_range_example:
  "wf_image \<lparr>width = 2, height = 2, data = [0x0A141E01, 0x14283C02, 0x1E3C5A03, 0x2B507804]\<rparr> \<and>
   wf_image \<lparr>width = 2, height = 2, data = [0, 0, 0, 0]\<rparr> \<and>
   (1 :: int) < INT_MAX \<and>
   channel_sum getRed
     \<lparr>width = 2, height = 2, data = [0x0A141E01, 0x14283C02, 0x1E3C5A03, 0x2B507804]\<rparr>
     (blur_window
       \<lparr>width = 2, height = 2, data = [0x0A141E01, 0x14283C02, 0x1E3C5A03, 0x2B507804]\<rparr>
       1 0 0) = 103 \<and>
   (\<exists>out. imgproc_blur
       \<lparr>width = 2, height = 2, data = [0x0A141E01, 0x14283C02, 0x1E3C5A03, 0x2B507804]\<rparr>
       \<lparr>width = 2, height = 2, data = [0, 0, 0, 0]\<rparr> 1 = Some out \<and>
      uint (getRed (px out 0 0)) = 25 \<and> uint (getGreen (px out 0 0)) = 50 \<and>
      uint (getBlue (px out 0 0)) = 75 \<and> getAlpha (px out 0 0) = 1)"
proof -
  let ?img = "\<lparr>width = 2, height = 2,
    data = [0x0A141E01, 0x14283C02, 0x1E3C5A03, 0x2B507804 :: uint32_t]\<rparr>"
  let ?dst = "\<lparr>width = 2, height = 2, data = [0, 0, 0, 0 :: uint32_t]\<rparr>"
  have wf: "wf_image ?img" "wf_image ?dst"
    by (simp_all add: wf_image_def INT_MAX_def)
  have win: "blur_window ?img 1 0 0 = {(0, 0), (0, 1), (1, 0), (1, 1)}"
    by (auto simp add: blur_window_def)
  have n: "card (blur_window ?img 1 0 0) = 4"
    unfolding win by simp
  have s: "channel_sum getRed ?img (blur_window ?img 1 0 0) = 103"
    "channel_sum getGreen ?img (blur_window ?img 1 0 0) = 200"
    "channel_sum getBlue ?img (blur_window ?img 1 0 0) = 300"
    unfolding win by (simp_all add: channel_sum_def px_def getRed_def getGreen_def getBlue_def)
  have al: "getAlpha (px ?img 0 0) = 1"
    by (simp add: px_def getAlpha_def)
  have b: "(1 :: int) < INT_MAX" by (simp add: INT_MAX_def)
  have r: "(0 :: int) \<le> 1" "height ?img - 1 + 1 \<le> INT_MAX" "width ?img - 1 + 1 \<le> INT_MAX"
    by (simp_all add: INT_MAX_def)
  have d: "width ?dst = width ?img" "height ?dst = height ?img" by simp_all
  from blur_averages_in_range [OF wf d r(1) b r(2,3)] obtain out where out:
    "imgproc_blur ?img ?dst 1 = Some out"
    and pix: "\<forall>row col. 0 \<le> row \<and> row < height ?img \<and> 0 \<le> col \<and> col < width ?img \<longrightarrow>
       getAlpha (px out row col) = getAlpha (px ?img row col) \<and>
       (channel_sum getBlue ?img (blur_window ?img 1 row col) \<le> INT_MAX \<longrightarrow>
          uint (getBlue (px out row col)) =
            channel_sum getBlue ?img (blur_window ?img 1 row col)
              div int (card (blur_window ?img 1 row col))) \<and>
       (channel_sum getGreen ?img (blur_window ?img 1 row col) \<le> INT_MAX \<and>
        channel_sum getBlue ?img (blur_window ?img 1 row col) \<le> INT_MAX \<longrightarrow>
          uint (getGreen (px out row col)) =
            channel_sum getGreen ?img (blur_window ?img 1 row col)
              div int (card (blur_window ?img 1 row col))) \<and>
       (channel_sum getRed ?img (blur_window ?img 1 row col) \<le> INT_MAX \<and>
        channel_sum getGreen ?img (blur_window ?img 1 row col) \<le> INT_MAX \<and>
        channel_sum getBlue ?img (blur_window ?img 1 row col) \<le> INT_MAX \<longrightarrow>
          uint (getRed (px out row col)) =
            channel_sum getRed ?img (blur_window ?img 1 row col)
              div int (card (blur_window ?img 1 row col)))"
    by blast
  have "uint (getRed (px out 0 0)) = 25 \<and> uint (getGreen (px out 0 0)) = 50 \<and>
      uint (getBlue (px out 0 0)) = 75 \<and> getAlpha (px out 0 0) = 1"
    using pix [rule_format, of 0 0] by (simp add: s n al INT_MAX_def)
  then show ?thesis using wf b s(1) out by blast
qed

lemma white_row_window:
  "blur_window \<lparr>width = 8421505, height = 1, data = replicate 8421505 0xFF000000\<rparr>
      8421504 0 0 = {0} \<times> {0..<8421505}"
  by (auto simp add: blur_window_def)

lemma white_row_channel_sum:
  "channel_sum c \<lparr>width = 8421505, height = 1, data = replicate 8421505 0xFF000000\<rparr>
      ({0} \<times> {0..<8421505}) = 8421505 * uint (c 0xFF000000)"
proof -
  let ?img = "\<lparr>width = 8421505, height = 1, data = replicate 8421505 (0xFF000000 :: uint32_t)\<rparr>"
  have p: "px ?img x y = 0xFF000000" if "(x, y) \<in> {0} \<times> {0..<8421505}" for x y
    using that by (auto simp add: px_def)
  have "channel_sum c ?img ({0} \<times> {0..<8421505}) =
      (\<Sum>q\<in>({0} \<times> {0..<8421505} :: (int \<times> int) set). uint (c 0xFF000000))"
    unfolding channel_sum_def by (rule sum.cong) (auto simp add: p)
  then show ?thesis
    by (simp add: card_cartesian_product)
qed

lemma white_row_sums:
  "blur_sums \<lparr>width = 8421505, height = 1, data = replicate 8421505 0xFF000000\<rparr>
      ({0} \<times> {0..<8421505}) = (- 2147483521, 0, 0, 8421505)"
proof -
  have ch: "getRed 0xFF000000 = 255" "getGreen 0xFF000000 = 0" "getBlue 0xFF000000 = 0"
    by (simp_all add: getRed_def getGreen_def getBlue_def)
  have "sint (word_of_int 2147483775 :: uint32_t) = - 2147483521"
    by (simp add: sint_sbintrunc')
  then show ?thesis
    by (simp add: blur_sums_def white_row_channel_sum ch card_cartesian_product)
qed

text \<open>
  Claim C2: blur sets the red, green and blue channels of every output pixel to the
  truncated average of the channel over the in-bounds pixels of its window, and copies
  the alpha. The code does not do so on every image: the accumulators \<open>red\<close>,
  \<open>green\<close>, \<open>blue\<close> are C ints. On a row of 8421505 pixels of red 255 blurred with
  \<open>blur_dist = 8421504\<close> into a destination of the same size (a well-formed image, the
  loop counters in range) the window of the pixel at (0, 0) is the whole row, the
  average of its red channel is 255, the red sum 2147483775 wraps around to a negative
  int, and the red channel stored at (0, 0) is 2.
\<close>

theorem blur_accumulator_wraps:
  "wf_image \<lparr>width = 8421505, height = 1, data = replicate 8421505 0xFF000000\<rparr> \<and>
   wf_image \<lparr>width = 8421505, height = 1, data = replicate 8421505 0\<rparr> \<and>
   channel_sum getRed \<lparr>width = 8421505, height = 1, data = replicate 8421505 0xFF000000\<rparr>
       (blur_window \<lparr>width = 8421505, height = 1, data = replicate 8421505 0xFF000000\<rparr>
          8421504 0 0)
     div int (card (blur_window
          \<lparr>width = 8421505, height = 1, data = replicate 8421505 0xFF000000\<rparr> 8421504 0 0))
     = 255 \<and>
   map_option (\<lambda>out. getRed (px out 0 0))
     (imgproc_blur \<lparr>width = 8421505, height = 1, data = replicate 8421505 0xFF000000\<rparr>
                   \<lparr>width = 8421505, height = 1, data = replicate 8421505 0\<rparr> 8421504) = Some 2"
proof -
  let ?img = "\<lparr>width = 8421505, height = 1, data = replicate 8421505 (0xFF000000 :: uint32_t)\<rparr>"
  let ?dst = "\<lparr>width = 8421505, height = 1, data = replicate 8421505 (0 :: uint32_t)\<rparr>"
  have wf: "wf_image ?img" "wf_image ?dst"
    by (simp_all add: wf_image_def INT_MAX_def)
  have "getRed 0xFF000000 = 255" by (simp add: getRed_def)
  then have avg: "channel_sum getRed ?img (blur_window ?img 8421504 0 0)
      div int (card (blur_window ?img 8421504 0 0)) = 255"
    by (simp add: white_row_window white_row_channel_sum card_cartesian_product)
  have "\<exists>out. imgproc_blur ?img ?dst 8421504 = Some out \<and>
    width out = width ?img \<and> height out = height ?img \<and>
    length (data out) = length (data ?img) \<and>
    (\<forall>i j. 0 \<le> i \<and> i < height ?img \<and> 0 \<le> j \<and> j < width ?img \<longrightarrow>
       px out i j = blur_result ?img 8421504 i j)"
    by (rule blur_pixels [OF wf]) (simp_all add: INT_MAX_def)
  then obtain out where out: "imgproc_blur ?img ?dst 8421504 = Some out"
    "px out 0 0 = blur_result ?img 8421504 0 0"
    by auto
  have "(- 2147483521 :: int) sdiv 8421505 = - 254"
    by (simp add: signed_divide_int_def)
  then have "blur_result ?img 8421504 0 0 = 0x02000000"
    by (simp add: blur_result_def white_row_window white_row_sums createPixel_def px_def
        getAlpha_def)
  then have "map_option (\<lambda>out. getRed (px out 0 0)) (imgproc_blur ?img ?dst 8421504) = Some 2"
    by (simp add: out getRed_def)
  then show ?thesis using wf avg by blast
qed

lemma blur_window_zero:
  assumes "0 \<le> i" "i < height img" "0 \<le> j" "j < width img"
  shows "blur_window img 0 i j = {(i, j)}"
  using assms by (auto simp add: blur_window_def)

lemma blur_result_zero:
  assumes ij: "0 \<le> i" "i < height img" "0 \<le> j" "j < width img"
  shows "blur_result img 0 i j = px img i j"
proof -
  have a: "sint (word_of_int (uint x) :: uint32_t) sdiv 1 = uint x" if "uint x \<le> 255"
    for x :: uint32_t
    using average_channel(1) [of "uint x" 1] that by (simp add: INT_MAX_def)
  show ?thesis
    by (simp add: blur_result_def blur_window_zero [OF ij] blur_sums_def channel_sum_def
        a uint_channel_le createPixel_of_getters)
qed

text \<open>
  Claim C5. Blurring with \<open>blur_dist = 0\<close> into a destination of the same dimensions
  gives back the input image: every pixel keeps its red, green, blue and alpha channels.
\<close>

theorem blur_zero_identity:
  assumes "wf_image input_img" "wf_image output_img"
    "width output_img = width input_img" "height output_img = height input_img"
  shows "imgproc_blur input_img output_img 0 = Some input_img"
proof -
  note w = wf_imageD [OF assms(1)]
  have b: "(0 :: int) \<le> 0" "0 < INT_MAX" "height input_img - 1 + 0 \<le> INT_MAX"
    "width input_img - 1 + 0 \<le> INT_MAX"
    using w by (simp_all add: INT_MAX_def)
  obtain out where out: "imgproc_blur input_img output_img 0 = Some out"
    "width out = width input_img" "height out = height input_img"
    "length (data out) = length (data input_img)"
    and pix: "\<And>i j. 0 \<le> i \<and> i < height input_img \<and> 0 \<le> j \<and> j < width input_img \<Longrightarrow>
       px out i j = blur_result input_img 0 i j"
    using blur_pixels [OF assms b] by blast
  have "out = input_img"
    by (rule image_eqI [OF assms(1) out(2,3,4)]) (simp add: pix blur_result_zero)
  then show ?thesis using out(1) by simp
qed

theorem blur_zero_identity_witness:
  "wf_image \<lparr>width = 2, height = 2, data = [0x0A141E01, 0x14283C02, 0x1E3C5A03, 0x2B507804]\<rparr> \<and>
   wf_image \<lparr>width = 2, height = 2, data = [0, 0, 0, 0]\<rparr> \<and>
   imgproc_blur
       \<lparr>width = 2, height = 2, data = [0x0A141E01, 0x14283C02, 0x1E3C5A03, 0x2B507804]\<rparr>
       \<lparr>width = 2, height = 2, data = [0, 0, 0, 0]\<rparr> 0
     = Some \<lparr>width = 2, height = 2, data = [0x0A141E01, 0x14283C02, 0x1E3C5A03, 0x2B507804]\<rparr>"
proof -
  have wf: "wf_image \<lparr>width = 2, height = 2,
      data = [0x0A141E01, 0x14283C02, 0x1E3C5A03, 0x2B507804]\<rparr>"
    "wf_image \<lparr>width = 2, height = 2, data = [0, 0, 0, 0]\<rparr>"
    by (simp_all add: wf_image_def INT_MAX_def)
  show ?thesis using blur_zero_identity [OF wf] wf by simp
qed

lemma c_neg_eq_Some: "c_neg d = Some k \<Longrightarrow> k = - d"
  by (simp add: c_neg_def c_int_def split: if_splits)

lemma blur_accumulate_total_pos:
  assumes d: "0 \<le> d" and ij: "0 \<le> i" "i < height img" "0 \<le> j" "j < width img"
    and acc: "blur_accumulate img d i j = Some (red, green, blue, n)"
  shows "1 \<le> n"
proof -
  let ?visit = "\<lambda>k l. \<lambda>(red, green, blue, total).
                    do { currX \<leftarrow> c_add i k;
                         currY \<leftarrow> c_add j l;
                         if currX \<ge> 0 \<and> currX < height img \<and> currY \<ge> 0 \<and> currY < width img
                         then do { t \<leftarrow> c_mul currX (width img);
                                   idx \<leftarrow> c_add t currY;
                                   pixel \<leftarrow> load (data img) idx;
                                   total' \<leftarrow> c_add total 1;
                                   Some (add_assign_u red (drop_bit 24 pixel AND 0xFF),
                                         add_assign_u green (drop_bit 16 pixel AND 0xFF),
                                         add_assign_u blue (drop_bit 8 pixel AND 0xFF),
                                         total') }
                         else Some (red, green, blue, total) }"
  define I :: "int \<Rightarrow> int \<Rightarrow> int \<times> int \<times> int \<times> int \<Rightarrow> bool" where
    "I k l s \<longleftrightarrow> 0 \<le> snd (snd (snd s)) \<and>
       (0 < k \<or> (k = 0 \<and> 0 < l) \<longrightarrow> 1 \<le> snd (snd (snd s)))" for k l s
  have visit: "I k (l + 1) t" if "I k l s" "?visit k l s = Some t" for k l s t
  proof -
    obtain r0 g0 b0 n0 where s: "s = (r0, g0, b0, n0)" by (cases s)
    obtain r1 g1 b1 n1 where t: "t = (r1, g1, b1, n1)" by (cases t)
    from that(2) have x: "c_add i k = Some (i + k)" and y: "c_add j l = Some (j + l)"
      by (auto simp add: s bind_eq_Some_conv dest: c_add_eq_Some)
    show ?thesis
    proof (cases "0 \<le> i + k \<and> i + k < height img \<and> 0 \<le> j + l \<and> j + l < width img")
      case True
      from that(2) have "n1 = n0 + 1"
        by (auto simp add: s t x y if_P [OF True] bind_eq_Some_conv dest: c_add_eq_Some)
      then show ?thesis using that(1) by (auto simp add: I_def s t)
    next
      case False
      then have "\<not> (k = 0 \<and> l = 0)" using ij by auto
      moreover from that(2) have "n1 = n0"
        by (simp add: s t x y if_not_P [OF False])
      ultimately show ?thesis using that(1) by (auto simp add: I_def s t)
    qed
  qed
  have row: "I (k + 1) (- d) t"
    if "I k (- d) s" "do { l0 \<leftarrow> c_neg d; for_le l0 d (?visit k) s } = Some t" for k s t
  proof -
    from that(2) have loop: "for_le (- d) d (?visit k) s = Some t"
      by (auto simp add: bind_eq_Some_conv dest: c_neg_eq_Some)
    have "I k (d + 1) t"
      by (rule for_le_partial [where I = "I k" and lo = "- d", OF _ _ _ that(1) loop])
         (use visit d in auto)
    then show ?thesis using d by (auto simp add: I_def)
  qed
  from acc have loop: "for_le (- d) d
      (\<lambda>k acc. do { l0 \<leftarrow> c_neg d; for_le l0 d (?visit k) acc }) (0, 0, 0, 0)
      = Some (red, green, blue, n)"
    by (auto simp add: blur_accumulate_def Let_def bind_eq_Some_conv dest: c_neg_eq_Some)
  have init: "I (- d) (- d) (0, 0, 0, 0)" using d by (simp add: I_def)
  have "I (d + 1) (- d) (red, green, blue, n)"
    by (rule for_le_partial [where I = "\<lambda>k. I k (- d)" and lo = "- d", OF _ _ _ init loop])
       (use row d in auto)
  then show ?thesis using d by (simp add: I_def)
qed


text \<open>
  Claim C3. In blur the contributor count is at least 1 whenever the accumulation for
  an output pixel has finished (the centre pixel is in bounds and was counted), so the
  divisions by the count do not divide by zero; within the range of the loop counters
  the accumulation does finish. The finalisation of a pixel averager is defined
  whenever its count is at least 1, and the count is 1 after a reset and one
  accumulation from a position in bounds.
\<close>

theorem blur_count_positive:
  "(0 \<le> blur_dist \<and> 0 \<le> i \<and> i < height img \<and> 0 \<le> j \<and> j < width img \<and>
      blur_accumulate img blur_dist i j = Some (red, green, blue, n) \<longrightarrow> 1 \<le> n) \<and>
   (wf_image img \<and> 0 \<le> blur_dist \<and> blur_dist < INT_MAX \<and>
      height img - 1 + blur_dist \<le> INT_MAX \<and> width img - 1 + blur_dist \<le> INT_MAX \<and>
      0 \<le> i \<and> i < height img \<and> 0 \<le> j \<and> j < width img \<longrightarrow>
      (\<exists>red green blue n. blur_accumulate img blur_dist i j = Some (red, green, blue, n) \<and>
          1 \<le> n)) \<and>
   (1 \<le> count pa \<longrightarrow>
      pa_avg_pixel pa = Some (createPixel (r pa div count pa) (g pa div count pa)
                                          (b pa div count pa) (a pa div count pa))) \<and>
   (wf_image img \<and> 0 \<le> i \<and> i < height img \<and> 0 \<le> j \<and> j < width img \<longrightarrow>
      (\<exists>pa'. pa_update_from_img img i j pa_init = Some pa' \<and> count pa' = 1))"
proof (intro conjI impI)
  assume "0 \<le> blur_dist \<and> 0 \<le> i \<and> i < height img \<and> 0 \<le> j \<and> j < width img \<and>
      blur_accumulate img blur_dist i j = Some (red, green, blue, n)"
  then show "1 \<le> n"
    using blur_accumulate_total_pos [of blur_dist i img j red green blue n] by simp
next
  assume h: "wf_image img \<and> 0 \<le> blur_dist \<and> blur_dist < INT_MAX \<and>
      height img - 1 + blur_dist \<le> INT_MAX \<and> width img - 1 + blur_dist \<le> INT_MAX \<and>
      0 \<le> i \<and> i < height img \<and> 0 \<le> j \<and> j < width img"
  then have "blur_accumulate img blur_dist i j =
      Some (blur_sums img (blur_window img blur_dist i j))"
    by (intro blur_accumulate_result) simp_all
  moreover have "1 \<le> int (card (blur_window img blur_dist i j))"
    using h by (intro card_blur_window_pos) simp_all
  ultimately show "\<exists>red green blue n.
      blur_accumulate img blur_dist i j = Some (red, green, blue, n) \<and> 1 \<le> n"
    by (simp add: blur_sums_def)
next
  assume "1 \<le> count pa"
  then have "count pa \<noteq> 0" by auto
  then show "pa_avg_pixel pa = Some (createPixel (r pa div count pa) (g pa div count pa)
                                          (b pa div count pa) (a pa div count pa))"
    by (simp add: pa_avg_pixel_def)
next
  assume h: "wf_image img \<and> 0 \<le> i \<and> i < height img \<and> 0 \<le> j \<and> j < width img"
  then have "c_mul i (width img) = Some (i * width img)"
    "c_add (i * width img) j = Some (i * width img + j)"
    "load (data img) (i * width img + j) = Some (px img i j)"
    using pixel_index(1,2,5) [of img i j] by simp_all
  then show "\<exists>pa'. pa_update_from_img img i j pa_init = Some pa' \<and> count pa' = 1"
    using h by (simp add: pa_update_from_img_def pa_update_def pa_init_def)
qed

theorem blur_count_positive_witness:
  "wf_image \<lparr>width = 3, height = 3, data = [0, 0, 0, 0, 0, 0, 0, 0, 0]\<rparr> \<and>
   blur_accumulate \<lparr>width = 3, height = 3, data = [0, 0, 0, 0, 0, 0, 0, 0, 0]\<rparr> 1 0 0
     = Some (0, 0, 0, 4) \<and> (1 :: int) \<le> 4 \<and>
   (1 :: uint32_t) \<le> count \<lparr>r = 7, g = 5, b = 3, a = 1, count = 2\<rparr> \<and>
   pa_avg_pixel \<lparr>r = 7, g = 5, b = 3, a = 1, count = 2\<rparr> = Some 0x03020100 \<and>
   (\<exists>pa'. pa_update_from_img \<lparr>width = 3, height = 3, data = [0, 0, 0, 0, 0, 0, 0, 0, 0]\<rparr>
            2 2 pa_init = Some pa' \<and> count pa' = 1)"
proof -
  let ?img = "\<lparr>width = 3, height = 3, data = [0, 0, 0, 0, 0, 0, 0, 0, 0 :: uint32_t]\<rparr>"
  let ?pa = "\<lparr>r = 7, g = 5, b = 3, a = 1, count = 2 :: uint32_t\<rparr>"
  have wf: "wf_image ?img"
    by (simp add: wf_image_def INT_MAX_def)
  have acc: "blur_accumulate ?img 1 0 0 = Some (0, 0, 0, 4)"
    by code_simp
  have px: "createPixel (7 div 2) (5 div 2) (3 div 2) (1 div 2) = (0x03020100 :: uint32_t)"
    by (simp add: createPixel_def)
  have 1: "(1 :: int) \<le> 4"
    using blur_count_positive [of 1 0 ?img 0 0 0 0 4 ?pa] acc by simp
  have 2: "pa_avg_pixel ?pa = Some 0x03020100"
    using blur_count_positive [of 1 0 ?img 0 0 0 0 4 ?pa] px by simp
  have 3: "\<exists>pa'. pa_update_from_img ?img 2 2 pa_init = Some pa' \<and> count pa' = 1"
    using blur_count_positive [of 1 2 ?img 2 0 0 0 4 ?pa] wf by simp
  show ?thesis using wf acc 1 2 3 by simp
qed

section \<open>Expand\<close>

lemma sdiv_smod_nonneg:
  fixes x y :: int
  assumes "0 \<le> x" "0 < y"
  shows "x sdiv y = x div y" "x smod y = x mod y"
  using assms by (simp_all add: signed_divide_int_def signed_modulo_int_def sgn_if)

lemma index_split:
  fixes m w h :: int
  assumes "0 \<le> m" "m < h * w" "0 \<le> w"
  shows "0 < w" "0 \<le> m div w" "m div w < h" "0 \<le> m mod w" "m mod w < w"
proof -
  show w: "0 < w"
  proof (rule ccontr)
    assume "\<not> 0 < w"
    then have z: "w = 0" using assms(3) by linarith
    have "h * w = 0" unfolding z by simp
    then show False using assms(1,2) by linarith
  qed
  show "0 \<le> m div w" using assms(1) w by (simp add: pos_imp_zdiv_nonneg_iff)
  show "m div w < h"
  proof (rule ccontr)
    assume "\<not> m div w < h"
    then have "h * w \<le> (m div w) * w"
      using w by (intro mult_right_mono) simp_all
    moreover have "(m div w) * w + m mod w = m" by simp
    moreover have "0 \<le> m mod w" using w by simp
    ultimately show False using assms(2) by linarith
  qed
  show "0 \<le> m mod w" "m mod w < w" using w by simp_all
qed

lemma expand_pixel_result:
  assumes wf: "wf_image input_img" "wf_image output_img"
    and dims: "width output_img = 2 * width input_img" "height output_img = 2 * height input_img"
    and i: "0 \<le> i" "i < height output_img * width output_img"
    and len: "length out = length (data output_img)"
  shows "expand_pixel input_img output_img i out =
    Some (out[nat i := expand_spec input_img (i div width output_img) (i mod width output_img)])"
proof -
  note wi = wf_imageD [OF wf(1)] and wo = wf_imageD [OF wf(2)]
  define row col where "row = i div width output_img" and "col = i mod width output_img"
  note sp = index_split [OF i wo(1)]
  have rc: "0 \<le> row" "row < 2 * height input_img" "0 \<le> col" "col < 2 * width input_img"
    using sp dims by (simp_all add: row_def col_def)
  have rng: "INT_MIN \<le> row" "row \<le> INT_MAX"
    using rc wo(4) dims INT_MIN_neg by linarith+
  have ri: "rowIndex i (width output_img) = Some row"
    using sp(1) rng sdiv_smod_nonneg(1) [OF i(1) sp(1)]
    by (simp add: rowIndex_def c_div_def c_int_def row_def)
  have "i \<noteq> INT_MIN" using i(1) INT_MIN_neg by linarith
  then have ci: "columnIndex i (width output_img) = Some col"
    using sp(1) sdiv_smod_nonneg(2) [OF i(1) sp(1)]
    by (simp add: columnIndex_def c_mod_def col_def)
  have sd: "row sdiv 2 = row div 2" "col sdiv 2 = col div 2"
    "row smod 2 = row mod 2" "col smod 2 = col mod 2"
    using rc by (simp_all add: sdiv_smod_nonneg)
  have h: "0 \<le> row div 2" "row div 2 < height input_img" "0 \<le> col div 2"
    "col div 2 < width input_img"
    using rc by simp_all
  have g0: "getPixel input_img (row div 2) (col div 2) = Some (px input_img (row div 2) (col div 2))"
    by (rule getPixel_px [OF wf(1) h])
  have g1: "getPixel input_img (row div 2) (col div 2 + 1) =
      Some (px input_img (row div 2) (col div 2 + 1))" if "\<not> width input_img \<le> col div 2 + 1"
    using that h by (intro getPixel_px [OF wf(1)]) simp_all
  have g2: "getPixel input_img (row div 2 + 1) (col div 2) =
      Some (px input_img (row div 2 + 1) (col div 2))" if "\<not> height input_img \<le> row div 2 + 1"
    using that h by (intro getPixel_px [OF wf(1)]) simp_all
  have g3: "getPixel input_img (row div 2 + 1) (col div 2 + 1) =
      Some (px input_img (row div 2 + 1) (col div 2 + 1))"
    if "\<not> width input_img \<le> col div 2 + 1" "\<not> height input_img \<le> row div 2 + 1"
    using that h by (intro getPixel_px [OF wf(1)]) simp_all
  have st: "store out i v = Some (out[nat i := v])" for v
    using i len wo(6) by (simp add: store_def)
  have par: "row mod 2 = 0 \<longleftrightarrow> even row" "col mod 2 = 0 \<longleftrightarrow> even col"
    by (simp_all add: even_iff_mod_2_eq_zero)
  show ?thesis
    unfolding expand_pixel_def expand_spec_def row_def [symmetric] col_def [symmetric]
    by (simp add: ri ci sd par g0 g1 g2 g3 st Let_def)
qed

lemma expand_pixels:
  assumes wf: "wf_image input_img" "wf_image output_img"
    and dims: "width output_img = 2 * width input_img" "height output_img = 2 * height input_img"
  shows "\<exists>out. imgproc_expand input_img output_img = Some out \<and>
    width out = 2 * width input_img \<and> height out = 2 * height input_img \<and>
    (\<forall>row col. 0 \<le> row \<and> row < 2 * height input_img \<and> 0 \<le> col \<and> col < 2 * width input_img \<longrightarrow>
       px out row col = expand_spec input_img row col)"
proof -
  note wo = wf_imageD [OF wf(2)]
  define n where "n = width output_img * height output_img"
  have n: "0 \<le> n" "n \<le> INT_MAX" "n = int (length (data output_img))"
    "n = height output_img * width output_img"
    using wo by (simp_all add: n_def mult.commute)
  have mul: "c_mul (width output_img) (height output_img) = Some n"
    unfolding n_def
  proof (rule c_mul_Some)
    show "INT_MIN \<le> width output_img * height output_img"
      using n(1) INT_MIN_neg unfolding n_def by linarith
    show "width output_img * height output_img \<le> INT_MAX" by (rule wo(5))
  qed
  have "\<exists>out. for_lt 0 n (expand_pixel input_img output_img) (data output_img) = Some out \<and>
      length out = length (data output_img) \<and>
      (\<forall>m. 0 \<le> m \<and> m < n \<longrightarrow> out ! nat m =
         expand_spec input_img (m div width output_img) (m mod width output_img))"
    by (rule for_lt_fill) (use n expand_pixel_result [OF wf dims] in simp_all)
  then obtain out where out:
    "for_lt 0 n (expand_pixel input_img output_img) (data output_img) = Some out"
    "\<And>m. 0 \<le> m \<and> m < n \<Longrightarrow> out ! nat m =
         expand_spec input_img (m div width output_img) (m mod width output_img)"
    by blast
  have run: "imgproc_expand input_img output_img = Some (output_img\<lparr>data := out\<rparr>)"
    using mul out(1) by (simp add: imgproc_expand_def)
  show ?thesis
  proof (intro exI [of _ "output_img\<lparr>data := out\<rparr>"] conjI allI impI run)
    fix row col
    assume "0 \<le> row \<and> row < 2 * height input_img \<and> 0 \<le> col \<and> col < 2 * width input_img"
    then have rc: "0 \<le> row" "row < height output_img" "0 \<le> col" "col < width output_img"
      using dims by simp_all
    note b = idx_bound(1,2) [OF rc]
    have "(row * width output_img + col) div width output_img = row"
      "(row * width output_img + col) mod width output_img = col"
      using rc by simp_all
    then show "px (output_img\<lparr>data := out\<rparr>) row col = expand_spec input_img row col"
      using out(2) [of "row * width output_img + col"] b n(4) by simp
  qed (use dims in simp_all)
qed


text \<open>
  Claim C1. For a source image of n rows and m columns and a destination of 2n rows and
  2m columns, expand returns the destination with every pixel (row, col) computed by
  the parity and edge dispatch of the spec (\<open>expand_spec\<close>): a copy of source (r, c)
  when both are even; on an even row and odd column source (r, c) at the right edge and
  else the 2-way average with source (r, c+1); on an odd row and even column source
  (r, c) at the bottom edge and else the 2-way average with source (r+1, c); when both
  are odd the 4-way average at neither edge, the 2-way average with source (r+1, c) at
  the right edge only, with source (r, c+1) at the bottom edge only, and source (r, c)
  at both edges. The averages average the alpha channel as well.
\<close>

theorem expand_dispatch:
  assumes "wf_image input_img" "wf_image output_img"
    "width output_img = 2 * width input_img" "height output_img = 2 * height input_img"
  shows "(\<exists>out. imgproc_expand input_img output_img = Some out \<and>
      width out = 2 * width input_img \<and> height out = 2 * height input_img \<and>
      (\<forall>row col. 0 \<le> row \<and> row < 2 * height input_img \<and>
                 0 \<le> col \<and> col < 2 * width input_img \<longrightarrow>
         px out row col = expand_spec input_img row col)) \<and>
    unat (getAlpha (createAveragePixel p q)) = (unat (getAlpha p) + unat (getAlpha q)) div 2 \<and>
    unat (getAlpha (quadAveragePixel p q s t)) =
      (unat (getAlpha p) + unat (getAlpha q) + unat (getAlpha s) + unat (getAlpha t)) div 4"
  by (intro conjI expand_pixels [OF assms] createAveragePixel_channels(4)
      quadAveragePixel_channels(4))

theorem expand_dispatch_witness:
  "wf_image \<lparr>width = 2, height = 2, data = [0xFF0000FF, 0x00FF00FF, 0x0000FFFF, 0xFFFFFFFF]\<rparr> \<and>
   wf_image \<lparr>width = 4, height = 4, data = [0, 0, 0, 0, 0, 0, 0, 0, 0, 0, 0, 0, 0, 0, 0, 0]\<rparr> \<and>
   (\<exists>out. imgproc_expand
       \<lparr>width = 2, height = 2, data = [0xFF0000FF, 0x00FF00FF, 0x0000FFFF, 0xFFFFFFFF]\<rparr>
       \<lparr>width = 4, height = 4, data = [0, 0, 0, 0, 0, 0, 0, 0, 0, 0, 0, 0, 0, 0, 0, 0]\<rparr>
         = Some out \<and>
      px out 0 0 = 0xFF0000FF \<and> px out 0 1 = 0x7F7F00FF \<and> px out 1 0 = 0x7F007FFF \<and>
      px out 1 1 = 0x7F7F7FFF \<and> px out 1 3 = 0x7FFF7FFF \<and> px out 3 1 = 0x7F7FFFFF \<and>
      px out 3 3 = 0xFFFFFFFF)"
proof -
  let ?src = "\<lparr>width = 2, height = 2,
    data = [0xFF0000FF, 0x00FF00FF, 0x0000FFFF, 0xFFFFFFFF :: uint32_t]\<rparr>"
  let ?dst = "\<lparr>width = 4, height = 4,
    data = [0, 0, 0, 0, 0, 0, 0, 0, 0, 0, 0, 0, 0, 0, 0, 0 :: uint32_t]\<rparr>"
  have wf: "wf_image ?src" "wf_image ?dst"
    by (simp_all add: wf_image_def INT_MAX_def)
  have e: "expand_spec ?src 0 0 = 0xFF0000FF" "expand_spec ?src 0 1 = 0x7F7F00FF"
    "expand_spec ?src 1 0 = 0x7F007FFF" "expand_spec ?src 1 1 = 0x7F7F7FFF"
    "expand_spec ?src 1 3 = 0x7FFF7FFF" "expand_spec ?src 3 1 = 0x7F7FFFFF"
    "expand_spec ?src 3 3 = 0xFFFFFFFF"
    by code_simp+
  from expand_dispatch [OF wf, of 0 0 0 0, THEN conjunct1] obtain out where out:
    "imgproc_expand ?src ?dst = Some out"
    "\<And>row col. 0 \<le> row \<and> row < 4 \<and> 0 \<le> col \<and> col < 4 \<Longrightarrow>
       px out row col = expand_spec ?src row col"
    by auto
  have "px out 0 0 = 0xFF0000FF" "px out 0 1 = 0x7F7F00FF" "px out 1 0 = 0x7F007FFF"
    "px out 1 1 = 0x7F7F7FFF" "px out 1 3 = 0x7FFF7FFF" "px out 3 1 = 0x7F7FFFFF"
    "px out 3 3 = 0xFFFFFFFF"
    by (simp_all add: out(2) e)
  then show ?thesis using wf out(1) by blast
qed

end
